theory Spec2Isabelle
  imports Main "HOL-Library.Word"
begin

unbundle bit_operations_syntax

section \<open>Constants of \<^verbatim>\<open>src/main.cpp\<close>\<close>

text \<open>
  The macros \<^verbatim>\<open>WIDTH\<close>, \<^verbatim>\<open>HEIGHT\<close> (both \<^verbatim>\<open>100'0ULL\<close>, that is 1000),
  \<^verbatim>\<open>POSITION_BOUND\<close> (\<^verbatim>\<open>WIDTH* HEIGHT - 1\<close>), \<^verbatim>\<open>SHIP_COUNT\<close> and
  \<^verbatim>\<open>WIN_FISH_COUNT\<close>. \<^verbatim>\<open>POSITION_BOUND\<close> is written without parentheses in the
  source; at each of its uses it stands either alone, on the right of a comparison or as the
  left operand of a subtraction, where the expansion has the value of the parenthesised
  expression. \<^verbatim>\<open>WIN_FISH_COUNT\<close> is a \<^verbatim>\<open>long long\<close> literal.
\<close>

definition WIDTH :: "64 word" where
  "WIDTH = 1000"

definition HEIGHT :: "64 word" where
  "HEIGHT = 1000"

definition POSITION_BOUND :: "64 word" where
  "POSITION_BOUND = WIDTH * HEIGHT - 1"

definition SHIP_COUNT :: nat where
  "SHIP_COUNT = 100000"

definition WIN_FISH_COUNT :: int where
  "WIN_FISH_COUNT = 10000"

text \<open>The enumerators of \<^verbatim>\<open>ShipType\<close> and \<^verbatim>\<open>ShipState\<close>, as the 8-bit values the
  loop body holds them in (\<^verbatim>\<open>uint8_t shipType\<close>, \<^verbatim>\<open>uint8_t shipState\<close>).\<close>

definition GREEDY :: "8 word" where
  "GREEDY = 0"

definition LAZY :: "8 word" where
  "LAZY = 1"

definition RESTLESS :: "8 word" where
  "RESTLESS = 2"

definition FLOATING :: "8 word" where
  "FLOATING = 0"

definition FISHING :: "8 word" where
  "FISHING = 1"

definition FINISHING :: "8 word" where
  "FINISHING = 2"

definition DEAD :: "8 word" where
  "DEAD = 3"

text \<open>Shifts and masks of the packed record.\<close>

definition STATE_SHIFT :: nat where
  "STATE_SHIFT = 2"

definition TIMER_SHIFT :: nat where
  "TIMER_SHIFT = 4"

definition FISH_SHIFT :: nat where
  "FISH_SHIFT = 6"

definition POSITION_SHIFT :: nat where
  "POSITION_SHIFT = 20"

definition OFFSET_X_SHIFT :: nat where
  "OFFSET_X_SHIFT = 54"

definition OFFSET_Y_SHIFT :: nat where
  "OFFSET_Y_SHIFT = 58"

definition MASK_2BIT :: "64 word" where
  "MASK_2BIT = 0x3"

definition MASK_4BIT :: "64 word" where
  "MASK_4BIT = 0xF"

definition MASK_14BIT :: "64 word" where
  "MASK_14BIT = 0x3FFF"

definition MASK_34BIT :: "64 word" where
  "MASK_34BIT = 0x3FFFFFFFF"

section \<open>The packed record\<close>

text \<open>\<^verbatim>\<open>setbits\<close>: clear the field, then store the masked value.\<close>

definition setbits :: "64 word \<Rightarrow> nat \<Rightarrow> 64 word \<Rightarrow> 64 word \<Rightarrow> 64 word" where
  "setbits n shift msk v =
     (let n1 = n AND NOT (push_bit shift msk)
      in n1 OR push_bit shift (v AND msk))"

text \<open>The source has no reader function: every read is the inline expression
  \<^verbatim>\<open>(ship >> SHIFT) & MASK\<close> (the type, at shift 0, is read as \<^verbatim>\<open>ship & MASK_2BIT\<close>).
  \<open>getbits\<close> names that expression.\<close>

definition getbits :: "64 word \<Rightarrow> nat \<Rightarrow> 64 word \<Rightarrow> 64 word" where
  "getbits n shift msk = drop_bit shift n AND msk"

text \<open>The layout comment of the source, as (shift, mask) pairs from the lowest field up:
  type, state, timer, fish, position, x offset, y offset.\<close>

definition layout :: "(nat \<times> 64 word) list" where
  "layout = [(0, MASK_2BIT), (STATE_SHIFT, MASK_2BIT), (TIMER_SHIFT, MASK_2BIT),
             (FISH_SHIFT, MASK_14BIT), (POSITION_SHIFT, MASK_34BIT),
             (OFFSET_X_SHIFT, MASK_4BIT), (OFFSET_Y_SHIFT, MASK_4BIT)]"

text \<open>The two offsets as the FLOATING branch reads them:
  \<^verbatim>\<open>int64_t offsetX = (ship >> OFFSET_X_SHIFT) & MASK_4BIT; offsetX -= 8;\<close>\<close>

definition offsetX_of :: "64 word \<Rightarrow> int" where
  "offsetX_of ship = sint (getbits ship OFFSET_X_SHIFT MASK_4BIT) - 8"

definition offsetY_of :: "64 word \<Rightarrow> int" where
  "offsetY_of ship = sint (getbits ship OFFSET_Y_SHIFT MASK_4BIT) - 8"

text \<open>Names for the reads of the other fields, as the loop body writes them:
  \<^verbatim>\<open>uint8_t shipType = ship & MASK_2BIT\<close>,
  \<^verbatim>\<open>uint8_t shipState = (ship >> STATE_SHIFT) & MASK_2BIT\<close>,
  \<^verbatim>\<open>(ship >> TIMER_SHIFT) & MASK_2BIT\<close>, \<^verbatim>\<open>(ship >> FISH_SHIFT) & MASK_14BIT\<close> and
  \<^verbatim>\<open>(ship >> POSITION_SHIFT) & MASK_34BIT\<close>.\<close>

abbreviation type_of :: "64 word \<Rightarrow> 8 word" where
  "type_of ship \<equiv> ucast (ship AND MASK_2BIT)"

abbreviation state_of :: "64 word \<Rightarrow> 8 word" where
  "state_of ship \<equiv> ucast (getbits ship STATE_SHIFT MASK_2BIT)"

abbreviation timer_of :: "64 word \<Rightarrow> 64 word" where
  "timer_of ship \<equiv> getbits ship TIMER_SHIFT MASK_2BIT"

abbreviation fish_of :: "64 word \<Rightarrow> 64 word" where
  "fish_of ship \<equiv> getbits ship FISH_SHIFT MASK_14BIT"

abbreviation position_of :: "64 word \<Rightarrow> 64 word" where
  "position_of ship \<equiv> getbits ship POSITION_SHIFT MASK_34BIT"

section \<open>Random draws\<close>

text \<open>
  The distributions are read from one global generator. A ship's update calls each of
  \<^verbatim>\<open>shipTimerRng\<close>, \<^verbatim>\<open>catchRng\<close>, \<^verbatim>\<open>fishRng\<close>, \<^verbatim>\<open>cellTimerRnd\<close> at most once and
  \<^verbatim>\<open>shipOffsetRng\<close> at most twice (x first, then y); a \<open>draw\<close> holds the values those
  calls return. \<open>valid_draw\<close> states the bounds the distributions are constructed with.
\<close>

record draw =
  shipTimerRng :: int
  catchRng :: int
  fishRng :: int
  cellTimerRnd :: int
  shipOffsetRngX :: int
  shipOffsetRngY :: int

definition valid_draw :: "draw \<Rightarrow> bool" where
  "valid_draw d \<longleftrightarrow>
     1 \<le> shipTimerRng d \<and> shipTimerRng d \<le> 3 \<and>
     1 \<le> catchRng d \<and> catchRng d \<le> 10 \<and>
     0 \<le> fishRng d \<and> fishRng d \<le> 15 \<and>
     15 \<le> cellTimerRnd d \<and> cellTimerRnd d \<le> 30 \<and>
     0 \<le> shipOffsetRngX d \<and> shipOffsetRngX d \<le> 15 \<and>
     0 \<le> shipOffsetRngY d \<and> shipOffsetRngY d \<le> 15"

text \<open>The three values drawn for a ship at initialisation: \<^verbatim>\<open>shipTypeRng\<close>,
  \<^verbatim>\<open>shipTimerRng\<close>, \<^verbatim>\<open>shipPositionRng\<close>.\<close>

record init_draw =
  initType :: int
  initTimer :: int
  initPosition :: int

definition valid_init :: "init_draw \<Rightarrow> bool" where
  "valid_init d \<longleftrightarrow>
     0 \<le> initType d \<and> initType d \<le> 2 \<and>
     1 \<le> initTimer d \<and> initTimer d \<le> 3 \<and>
     0 \<le> initPosition d \<and> initPosition d \<le> uint POSITION_BOUND"

section \<open>Initialisation of a ship\<close>

text \<open>The body of the initialisation loop. The shifts of the timer and of the position are
  done on \<^verbatim>\<open>int\<close> and \<^verbatim>\<open>int64_t\<close> before the result is or-ed into the 64-bit word.\<close>

definition init_ship :: "init_draw \<Rightarrow> 64 word" where
  "init_ship d =
     (let ship = 0;
          ship = ship OR word_of_int (initType d);
          ship = ship OR word_of_int (push_bit STATE_SHIFT (uint FISHING));
          ship = ship OR word_of_int (push_bit TIMER_SHIFT (initTimer d));
          ship = ship OR word_of_int (push_bit POSITION_SHIFT (initPosition d))
      in ship)"

section \<open>One ship, one tick\<close>

subsection \<open>FLOATING\<close>

definition floating_step :: "draw \<Rightarrow> 64 word \<Rightarrow> 64 word" where
  "floating_step d ship =
     (let shipPosition = getbits ship POSITION_SHIFT MASK_34BIT;
          offsetX = offsetX_of ship;
          offsetY = offsetY_of ship
      in if offsetX = 0 \<and> offsetY = 0 then
           (let ship = setbits ship STATE_SHIFT MASK_2BIT (ucast FISHING)
            in setbits ship TIMER_SHIFT MASK_2BIT (word_of_int (shipTimerRng d)))
         else if offsetX > 0 then
           (let offsetX = offsetX - 1;
                shipPosition = shipPosition + 1;
                shipPosition = (if shipPosition > POSITION_BOUND then 0 else shipPosition);
                ship = setbits ship OFFSET_X_SHIFT MASK_4BIT (word_of_int (offsetX + 8))
            in setbits ship POSITION_SHIFT MASK_34BIT shipPosition)
         else if offsetX < 0 then
           (let offsetX = offsetX + 1;
                shipPosition = shipPosition - 1;
                shipPosition =
                  (if shipPosition > POSITION_BOUND then POSITION_BOUND else shipPosition);
                ship = setbits ship OFFSET_X_SHIFT MASK_4BIT (word_of_int (offsetX + 8))
            in setbits ship POSITION_SHIFT MASK_34BIT shipPosition)
         else if offsetY > 0 then
           (let offsetY = offsetY - 1;
                shipPosition =
                  (if shipPosition < WIDTH
                   then POSITION_BOUND - (WIDTH - shipPosition - 1)
                   else shipPosition - WIDTH);
                ship = setbits ship OFFSET_Y_SHIFT MASK_4BIT (word_of_int (offsetY + 8))
            in setbits ship POSITION_SHIFT MASK_34BIT shipPosition)
         else if offsetY < 0 then
           (let offsetY = offsetY + 1;
                shipPosition =
                  (if shipPosition + WIDTH > POSITION_BOUND
                   then WIDTH - (POSITION_BOUND - shipPosition) - 1
                   else shipPosition + WIDTH);
                ship = setbits ship OFFSET_Y_SHIFT MASK_4BIT (word_of_int (offsetY + 8))
            in setbits ship POSITION_SHIFT MASK_34BIT shipPosition)
         else ship)"

subsection \<open>FISHING\<close>

text \<open>The correction of the catch by the fish on the cell. The source writes these five
  lines twice, once in each branch of the lookup; the result is the pair of the corrected
  \<^verbatim>\<open>fishCatched\<close> and the new \<^verbatim>\<open>cellFishCounter\<close>, both \<^verbatim>\<open>uint8_t\<close>.\<close>

definition consume :: "8 word \<Rightarrow> 8 word \<Rightarrow> 8 word \<times> 8 word" where
  "consume fishCatched cellFishCounter =
     (if fishCatched > cellFishCounter then (cellFishCounter, 0)
      else (fishCatched, cellFishCounter - fishCatched))"

text \<open>The lookup of the ship's cell in \<^verbatim>\<open>activeCells\<close> with both of its branches. An
  absent cell gets its amount from \<^verbatim>\<open>fishRng\<close>, is stored, and its index is pushed to the
  back of slot \<^verbatim>\<open>(tick + cellTimeout) % 30\<close> of \<^verbatim>\<open>cellsTimers\<close>; the sum is taken in
  \<^verbatim>\<open>uint64_t\<close>. The result is (fishCatched, cellFishCounter, activeCells, cellsTimers).\<close>

definition catch_fish ::
  "draw \<Rightarrow> 64 word \<Rightarrow> 64 word \<Rightarrow> (64 word \<rightharpoonup> 8 word) \<Rightarrow> 64 word list list
   \<Rightarrow> 8 word \<times> 8 word \<times> (64 word \<rightharpoonup> 8 word) \<times> 64 word list list" where
  "catch_fish d tk shipPosition cells timers =
     (let fishCatched = (word_of_int (catchRng d) :: 8 word)
      in case cells shipPosition of
           None \<Rightarrow>
             (let cellFishCounter = (word_of_int (fishRng d) :: 8 word);
                  (fishCatched, cellFishCounter) = consume fishCatched cellFishCounter;
                  cells = cells(shipPosition \<mapsto> cellFishCounter);
                  cellTimeout = cellTimerRnd d;
                  timerIdx = unat (tk + word_of_int cellTimeout) mod 30
              in (fishCatched, cellFishCounter, cells,
                  timers[timerIdx := timers ! timerIdx @ [shipPosition]]))
         | Some v \<Rightarrow>
             (let cellFishCounter = v;
                  (fishCatched, cellFishCounter) = consume fishCatched cellFishCounter
              in (fishCatched, cellFishCounter,
                  cells(shipPosition \<mapsto> cellFishCounter), timers)))"

text \<open>The \<^verbatim>\<open>switch (shipType)\<close> after a catch that did not reach the win count. It has no
  case for the value 3, which leaves the ship as it is.\<close>

definition after_catch :: "draw \<Rightarrow> 8 word \<Rightarrow> 8 word \<Rightarrow> 64 word \<Rightarrow> 64 word" where
  "after_catch d shipType cellFishCounter ship =
     (if shipType = GREEDY then
        (if cellFishCounter = 0 then
           (let ship = setbits ship OFFSET_X_SHIFT MASK_4BIT (word_of_int (shipOffsetRngX d));
                ship = setbits ship OFFSET_Y_SHIFT MASK_4BIT (word_of_int (shipOffsetRngY d))
            in setbits ship STATE_SHIFT MASK_2BIT (ucast FLOATING))
         else setbits ship TIMER_SHIFT MASK_2BIT (word_of_int (shipTimerRng d)))
      else if shipType = LAZY then
        setbits ship TIMER_SHIFT MASK_2BIT (word_of_int (shipTimerRng d))
      else if shipType = RESTLESS then
        (let ship = setbits ship OFFSET_X_SHIFT MASK_4BIT (1 + 8)
         in setbits ship STATE_SHIFT MASK_2BIT (ucast FLOATING))
      else ship)"

text \<open>The FISHING branch. \<^verbatim>\<open>fishTimer\<close> is a \<^verbatim>\<open>uint8_t\<close>, so its decrement wraps at 0.
  The new fish count is \<^verbatim>\<open>std::min\<close> of the sum, cast to \<^verbatim>\<open>long long\<close>, and
  \<^verbatim>\<open>WIN_FISH_COUNT\<close>. The result is (ship, activeCells, cellsTimers).\<close>

definition fishing_step ::
  "draw \<Rightarrow> 64 word \<Rightarrow> 8 word \<Rightarrow> 64 word \<Rightarrow> (64 word \<rightharpoonup> 8 word) \<Rightarrow> 64 word list list
   \<Rightarrow> 64 word \<times> (64 word \<rightharpoonup> 8 word) \<times> 64 word list list" where
  "fishing_step d tk shipType ship cells timers =
     (let shipPosition = getbits ship POSITION_SHIFT MASK_34BIT;
          fishTimer = (ucast (getbits ship TIMER_SHIFT MASK_2BIT) :: 8 word);
          fishTimer = fishTimer - 1;
          ship = setbits ship TIMER_SHIFT MASK_2BIT (ucast fishTimer)
      in if fishTimer > 0 then (ship, cells, timers)
         else
           (let (fishCatched, cellFishCounter, cells, timers) =
                  catch_fish d tk shipPosition cells timers;
                shipFishCounter = getbits ship FISH_SHIFT MASK_14BIT;
                shipFishCounter =
                  (word_of_int (min (sint (shipFishCounter + ucast fishCatched)) WIN_FISH_COUNT)
                    :: 64 word);
                ship = setbits ship FISH_SHIFT MASK_14BIT shipFishCounter
            in if shipFishCounter = word_of_int WIN_FISH_COUNT then
                 (setbits ship STATE_SHIFT MASK_2BIT (ucast FINISHING), cells, timers)
               else (after_catch d shipType cellFishCounter ship, cells, timers)))"

subsection \<open>FINISHING\<close>

text \<open>The FINISHING branch; the result is (ship, activeShips). \<^verbatim>\<open>activeShips\<close> is a C++
  \<^verbatim>\<open>int\<close> that starts at \<^verbatim>\<open>SHIP_COUNT\<close> and is only ever decremented, once per ship.\<close>

definition finishing_step :: "64 word \<Rightarrow> int \<Rightarrow> 64 word \<times> int" where
  "finishing_step ship activeShips =
     (let shipPosition = getbits ship POSITION_SHIFT MASK_34BIT;
          distanceLeft = WIDTH - (shipPosition mod WIDTH + 1)
      in if distanceLeft = 0 then
           (setbits ship STATE_SHIFT MASK_2BIT (ucast DEAD), activeShips - 1)
         else
           (let shipPosition = shipPosition + 1
            in (setbits ship POSITION_SHIFT MASK_34BIT shipPosition, activeShips)))"

section \<open>The simulation state and its loop\<close>

text \<open>
  The variables of \<^verbatim>\<open>main\<close> that the simulation reads and writes, and \<open>pc\<close>, the place
  in the body of the main loop: \<open>None\<close> before the cells are processed, \<open>Some i\<close> before
  ship \<open>i\<close> is processed (\<open>Some SHIP_COUNT\<close> is the end of the inner loop, before
  \<^verbatim>\<open>tick++\<close>).
\<close>

record sim =
  activeCells :: "64 word \<rightharpoonup> 8 word"
  cellsTimers :: "64 word list list"
  ships :: "64 word list"
  activeShips :: int
  tick :: "64 word"
  pc :: "nat option"

definition init_sim :: "init_draw list \<Rightarrow> sim" where
  "init_sim ds =
     \<lparr>activeCells = Map.empty, cellsTimers = replicate 30 [], ships = map init_ship ds,
      activeShips = int SHIP_COUNT, tick = 1, pc = None\<rparr>"

text \<open>The loop over the expiring group: erase each of its cells, then clear the group.\<close>

definition erase_cells :: "(64 word \<rightharpoonup> 8 word) \<Rightarrow> 64 word list \<Rightarrow> (64 word \<rightharpoonup> 8 word)" where
  "erase_cells cells expiring = foldl (\<lambda>m cellIdx. m(cellIdx := None)) cells expiring"

definition drain_expired :: "sim \<Rightarrow> sim" where
  "drain_expired s =
     (let expiringGroupIdx = unat (tick s) mod 30;
          expiring = cellsTimers s ! expiringGroupIdx
      in s\<lparr>activeCells := erase_cells (activeCells s) expiring,
            cellsTimers := (cellsTimers s)[expiringGroupIdx := []]\<rparr>)"

text \<open>The body of the loop over the ships, for the ship at index \<open>i\<close>: the outer
  \<^verbatim>\<open>switch (shipState)\<close> and the store \<^verbatim>\<open>ships[i] = ship\<close>, which the DEAD case skips.\<close>

definition update_ship :: "draw \<Rightarrow> nat \<Rightarrow> sim \<Rightarrow> sim" where
  "update_ship d i s =
     (let ship = ships s ! i;
          shipType = (ucast (ship AND MASK_2BIT) :: 8 word);
          shipState = (ucast (getbits ship STATE_SHIFT MASK_2BIT) :: 8 word)
      in if shipState = DEAD then s
         else if shipState = FLOATING then
           s\<lparr>ships := (ships s)[i := floating_step d ship]\<rparr>
         else if shipState = FISHING then
           (let (ship, cells, timers) =
                  fishing_step d (tick s) shipType ship (activeCells s) (cellsTimers s)
            in s\<lparr>activeCells := cells, cellsTimers := timers, ships := (ships s)[i := ship]\<rparr>)
         else
           (let (ship, n) = finishing_step ship (activeShips s)
            in s\<lparr>activeShips := n, ships := (ships s)[i := ship]\<rparr>))"

text \<open>One step of the body of the main loop. The loop is left when \<^verbatim>\<open>activeShips\<close> is not
  positive; the rendering, the event polling and the wait for the tick duration do not
  touch the simulation state.\<close>

definition sim_step :: "draw \<Rightarrow> sim \<Rightarrow> sim" where
  "sim_step d s =
     (case pc s of
        None \<Rightarrow> if activeShips s > 0 then (drain_expired s)\<lparr>pc := Some 0\<rparr> else s
      | Some i \<Rightarrow>
          if i < SHIP_COUNT then (update_ship d i s)\<lparr>pc := Some (Suc i)\<rparr>
          else s\<lparr>tick := tick s + 1, pc := None\<rparr>)"

text \<open>A run: one step for each element of a list of draws.\<close>

definition run :: "draw list \<Rightarrow> sim \<Rightarrow> sim" where
  "run ds s = foldl (\<lambda>s d. sim_step d s) s ds"

text \<open>The states of the simulation: those after the initialisation, and those a step
  leads to.\<close>

inductive reachable :: "sim \<Rightarrow> bool" where
  init: "length ds = SHIP_COUNT \<Longrightarrow> \<forall>d \<in> set ds. valid_init d \<Longrightarrow> reachable (init_sim ds)"
| step: "reachable s \<Longrightarrow> valid_draw d \<Longrightarrow> reachable (sim_step d s)"

section \<open>Invariants of the simulation state\<close>

text \<open>The ring buffer and the cell map agree: the buffer has its 30 slots, no cell index
  occurs twice in all the slots together, and the indices in the slots are exactly the cells
  of the map.\<close>

definition scheduled_once :: "(64 word \<rightharpoonup> 8 word) \<Rightarrow> 64 word list list \<Rightarrow> bool" where
  "scheduled_once cells timers \<longleftrightarrow>
     length timers = 30 \<and> distinct (concat timers) \<and> set (concat timers) = dom cells"

text \<open>The two bounds on a record that the data model asks for: the fish count is at most the
  win count and the position is on the grid.\<close>

definition ship_ok :: "64 word \<Rightarrow> bool" where
  "ship_ok ship \<longleftrightarrow>
     uint (fish_of ship) \<le> WIN_FISH_COUNT \<and> position_of ship \<le> POSITION_BOUND"

text \<open>The cells of tick \<open>due\<close> have not been processed yet: the tick counter is below \<open>due\<close>, or
  it is \<open>due\<close> and the loop body is still before the processing of the cells.\<close>

definition before_due :: "nat \<Rightarrow> sim \<Rightarrow> bool" where
  "before_due due s \<longleftrightarrow> unat (tick s) < due \<or> (unat (tick s) = due \<and> pc s = None)"

text \<open>An entry for cell \<open>p\<close>, pushed during tick \<open>T\<close> for tick \<open>due\<close>, is outstanding: it is in
  its slot, and the state is after the processing of the cells of tick \<open>T\<close> and before that
  of tick \<open>due\<close>.\<close>

definition outstanding :: "64 word \<Rightarrow> nat \<Rightarrow> nat \<Rightarrow> sim \<Rightarrow> bool" where
  "outstanding p T due s \<longleftrightarrow>
     scheduled_once (activeCells s) (cellsTimers s) \<and>
     p \<in> set (cellsTimers s ! (due mod 30)) \<and>
     T \<le> unat (tick s) \<and> (unat (tick s) = T \<longrightarrow> pc s \<noteq> None) \<and>
     before_due due s"

text \<open>The number of steps of the loop body that lead from the start of tick 0 to a state:
  a tick is \<^verbatim>\<open>SHIP_COUNT\<close> + 2 steps, the processing of the cells, one update for each ship
  and \<^verbatim>\<open>tick++\<close>.\<close>

definition loop_position :: "sim \<Rightarrow> nat" where
  "loop_position s =
     unat (tick s) * (SHIP_COUNT + 2) + (case pc s of None \<Rightarrow> 0 | Some j \<Rightarrow> Suc j)"

text \<open>A state in which no fish has been caught and none can be: every cell of the map is
  empty, and every ship has fish count 0 and floats or fishes, so all ships are active.\<close>

definition calm :: "sim \<Rightarrow> bool" where
  "calm s \<longleftrightarrow>
     (\<forall>c v. activeCells s c = Some v \<longrightarrow> v = 0) \<and>
     length (ships s) = SHIP_COUNT \<and>
     (\<forall>ship \<in> set (ships s).
        fish_of ship = 0 \<and> (state_of ship = FLOATING \<or> state_of ship = FISHING)) \<and>
     activeShips s = int SHIP_COUNT"

section \<open>Fields of the packed record\<close>

text \<open>The four mask constants are the all-ones words of 2, 4, 14 and 34 bits.\<close>

lemma MASK_2BIT_mask: "MASK_2BIT = mask 2"
  by (simp add: MASK_2BIT_def mask_eq_exp_minus_1)

lemma MASK_4BIT_mask: "MASK_4BIT = mask 4"
  by (simp add: MASK_4BIT_def mask_eq_exp_minus_1)

lemma MASK_14BIT_mask: "MASK_14BIT = mask 14"
  by (simp add: MASK_14BIT_def mask_eq_exp_minus_1)

lemma MASK_34BIT_mask: "MASK_34BIT = mask 34"
  by (simp add: MASK_34BIT_def mask_eq_exp_minus_1)

lemmas MASK_masks = MASK_2BIT_mask MASK_4BIT_mask MASK_14BIT_mask MASK_34BIT_mask

lemmas SHIFT_defs = STATE_SHIFT_def TIMER_SHIFT_def FISH_SHIFT_def POSITION_SHIFT_def
  OFFSET_X_SHIFT_def OFFSET_Y_SHIFT_def

lemma getbits_setbits_same:
  "s + k \<le> 64 \<Longrightarrow> getbits (setbits n s (mask k) v) s (mask k) = v AND mask k"
  unfolding getbits_def setbits_def Let_def
  by (rule bit_eqI) (auto simp add: bit_simps)

lemma setbits_outside:
  "setbits n s (mask k) v AND NOT (push_bit s (mask k)) = n AND NOT (push_bit s (mask k))"
  unfolding setbits_def Let_def
  by (rule bit_eqI) (auto simp add: bit_simps)

lemma getbits_setbits_other:
  "s + k \<le> s' \<or> s' + k' \<le> s \<Longrightarrow>
   getbits (setbits n s (mask k) v) s' (mask k') = getbits n s' (mask k')"
  unfolding getbits_def setbits_def Let_def
  by (rule bit_eqI) (auto simp add: bit_simps dest: bit_imp_le_length)

lemma le_mask_and_eq:
  fixes v :: "64 word"
  assumes "v \<le> mask k"
  shows "v AND mask k = v"
proof -
  have "uint v \<le> uint (mask k :: 64 word)"
    using assms by (simp add: word_le_def)
  also have "\<dots> = 2 ^ min 64 k - 1"
    unfolding uint_mask_eq by (simp add: mask_eq_exp_minus_1)
  finally have "uint v < 2 ^ min 64 k"
    by simp
  also have "(2::int) ^ min 64 k \<le> 2 ^ k"
    by (rule power_increasing) simp_all
  finally show ?thesis
    by (simp add: mask_eq_iff)
qed

text \<open>
  Claim C3. For every 64-bit record \<open>n\<close>, every field \<open>(sh, m)\<close> of the layout and every
  value \<open>v\<close>: reading the field after \<^verbatim>\<open>setbits\<close> gives \<open>v\<close> truncated to the mask, which is
  \<open>v\<close> itself when \<open>v\<close> fits the field; the bits outside the field are those of \<open>n\<close>; and
  every other field of the layout reads as before.
\<close>

theorem setbits_roundtrip:
  assumes "(sh, m) \<in> set layout"
  shows "getbits (setbits n sh m v) sh m = v AND m
       \<and> (v \<le> m \<longrightarrow> getbits (setbits n sh m v) sh m = v)
       \<and> setbits n sh m v AND NOT (push_bit sh m) = n AND NOT (push_bit sh m)
       \<and> (\<forall>(sh', m') \<in> set layout. (sh', m') \<noteq> (sh, m) \<longrightarrow>
            getbits (setbits n sh m v) sh' m' = getbits n sh' m')"
proof -
  from assms consider
      "sh = 0" "m = mask 2" | "sh = 2" "m = mask 2" | "sh = 4" "m = mask 2"
    | "sh = 6" "m = mask 14" | "sh = 20" "m = mask 34"
    | "sh = 54" "m = mask 4" | "sh = 58" "m = mask 4"
    by (auto simp add: layout_def MASK_masks SHIFT_defs)
  then show ?thesis
    by cases
      (simp_all only: layout_def MASK_masks SHIFT_defs list.set ball_simps
         insert_iff empty_iff prod.case prod.inject
         getbits_setbits_same getbits_setbits_other setbits_outside le_mask_and_eq,
       simp_all add: getbits_setbits_same getbits_setbits_other le_mask_and_eq)
qed

theorem setbits_roundtrip_witness:
  "(FISH_SHIFT, MASK_14BIT) \<in> set layout
   \<and> getbits (setbits 0xFFFFFFFFFFFFFFFF FISH_SHIFT MASK_14BIT 10000) FISH_SHIFT MASK_14BIT = 10000
   \<and> getbits (setbits 0xFFFFFFFFFFFFFFFF FISH_SHIFT MASK_14BIT 20000) FISH_SHIFT MASK_14BIT = 3616
   \<and> getbits (setbits 0xFFFFFFFFFFFFFFFF FISH_SHIFT MASK_14BIT 10000) POSITION_SHIFT MASK_34BIT
       = MASK_34BIT"
proof -
  have h: "(FISH_SHIFT, MASK_14BIT) \<in> set layout"
    by (simp add: layout_def)
  show ?thesis
    using h setbits_roundtrip [OF h, of "0xFFFFFFFFFFFFFFFF" 10000]
      setbits_roundtrip [OF h, of "0xFFFFFFFFFFFFFFFF" 20000]
    by (simp add: layout_def getbits_def MASK_14BIT_def MASK_34BIT_def SHIFT_defs)
qed

section \<open>Initialisation\<close>

lemma word_less_bit_bound:
  fixes w :: "64 word"
  assumes "w < 2 ^ k" "bit w n"
  shows "n < k"
proof -
  have "w AND mask k = w"
    using assms(1) by (rule less_mask_eq)
  then have "bit (w AND mask k) n"
    using assms(2) by simp
  then show ?thesis
    by (simp add: bit_simps)
qed

lemma getbits_or_push_low:
  fixes lo w :: "64 word"
  assumes "s + k \<le> j"
  shows "getbits (lo OR push_bit j w) s (mask k) = getbits lo s (mask k)"
  unfolding getbits_def using assms
  by (intro bit_eqI) (auto simp add: bit_simps)

lemma getbits_or_push_here:
  fixes lo w :: "64 word"
  assumes "lo < 2 ^ j" "w < 2 ^ k" "j + k \<le> 64"
  shows "getbits (lo OR push_bit j w) j (mask k) = w"
  unfolding getbits_def using assms
  by (intro bit_eqI) (auto simp add: bit_simps dest: word_less_bit_bound bit_imp_le_length)

lemma getbits_or_push_high:
  fixes lo w :: "64 word"
  assumes "lo < 2 ^ j" "w < 2 ^ k" "j + k \<le> s"
  shows "getbits (lo OR push_bit j w) s m = 0"
  unfolding getbits_def using assms
  by (intro bit_eqI) (auto simp add: bit_simps dest!: word_less_bit_bound)

lemma POSITION_BOUND_eq: "POSITION_BOUND = 999999"
  by (simp add: POSITION_BOUND_def WIDTH_def HEIGHT_def)

lemma word_of_int_le:
  assumes "0 \<le> k" "k \<le> uint (b :: 64 word)"
  shows "(word_of_int k :: 64 word) \<le> b"
proof -
  have "k < 2 ^ 64"
    using assms(2) uint_lt2p [of b] by simp
  then have "uint (word_of_int k :: 64 word) = k"
    using assms(1) by (simp add: uint_word_of_int)
  then show ?thesis
    using assms(2) by (simp add: word_le_def)
qed

lemma init_ship_split:
  "init_ship d =
     (word_of_int (initType d) OR 4 OR push_bit 4 (word_of_int (initTimer d)))
       OR push_bit 20 (word_of_int (initPosition d))"
  by (simp add: init_ship_def Let_def SHIFT_defs FISHING_def of_int_push_bit or.assoc)


lemma int_cases_0_2: "0 \<le> (k::int) \<Longrightarrow> k \<le> 2 \<Longrightarrow> k = 0 \<or> k = 1 \<or> k = 2"
  by arith

lemma int_cases_1_3: "1 \<le> (k::int) \<Longrightarrow> k \<le> 3 \<Longrightarrow> k = 1 \<or> k = 2 \<or> k = 3"
  by arith

lemma init_ship_low:
  assumes "valid_init d"
  defines "lo \<equiv> (word_of_int (initType d) OR 4 OR push_bit 4 (word_of_int (initTimer d)) :: 64 word)"
  shows "lo < 2 ^ 20"
    and "getbits lo 0 (mask 2) = word_of_int (initType d)"
    and "getbits lo 2 (mask 2) = 1"
    and "getbits lo 4 (mask 2) = word_of_int (initTimer d)"
    and "getbits lo 6 (mask 14) = 0"
proof -
  have ty: "initType d = 0 \<or> initType d = 1 \<or> initType d = 2"
    using assms(1) by (intro int_cases_0_2) (simp_all add: valid_init_def)
  have tm: "initTimer d = 1 \<or> initTimer d = 2 \<or> initTimer d = 3"
    using assms(1) by (intro int_cases_1_3) (simp_all add: valid_init_def)
  show "lo < 2 ^ 20"
    using ty tm by (auto simp add: lo_def)
  show "getbits lo 0 (mask 2) = word_of_int (initType d)"
    using ty tm by (auto simp add: lo_def getbits_def mask_eq_exp_minus_1)
  show "getbits lo 2 (mask 2) = 1"
    using ty tm by (auto simp add: lo_def getbits_def mask_eq_exp_minus_1)
  show "getbits lo 4 (mask 2) = word_of_int (initTimer d)"
    using ty tm by (auto simp add: lo_def getbits_def mask_eq_exp_minus_1)
  show "getbits lo 6 (mask 14) = 0"
    using ty tm by (auto simp add: lo_def getbits_def mask_eq_exp_minus_1)
qed

lemma init_position_less:
  assumes "valid_init d"
  shows "(word_of_int (initPosition d) :: 64 word) \<le> POSITION_BOUND"
    and "(word_of_int (initPosition d) :: 64 word) < 2 ^ 34"
proof -
  show le: "(word_of_int (initPosition d) :: 64 word) \<le> POSITION_BOUND"
    using assms by (intro word_of_int_le) (simp_all add: valid_init_def)
  have "POSITION_BOUND < 2 ^ 34"
    by (simp add: POSITION_BOUND_eq)
  with le show "(word_of_int (initPosition d) :: 64 word) < 2 ^ 34"
    by (rule le_less_trans)
qed

lemma init_ship_getbits:
  assumes "valid_init d"
  shows "getbits (init_ship d) 0 MASK_2BIT = word_of_int (initType d)"
    and "getbits (init_ship d) STATE_SHIFT MASK_2BIT = 1"
    and "getbits (init_ship d) TIMER_SHIFT MASK_2BIT = word_of_int (initTimer d)"
    and "getbits (init_ship d) FISH_SHIFT MASK_14BIT = 0"
    and "getbits (init_ship d) POSITION_SHIFT MASK_34BIT = word_of_int (initPosition d)"
    and "getbits (init_ship d) OFFSET_X_SHIFT MASK_4BIT = 0"
    and "getbits (init_ship d) OFFSET_Y_SHIFT MASK_4BIT = 0"
  using init_ship_low [OF assms] init_position_less [OF assms]
  by (simp_all add: init_ship_split MASK_masks SHIFT_defs getbits_or_push_low
      getbits_or_push_here getbits_or_push_high [where k = 34])

text \<open>
  Claim C10. Every record the initialisation produces from draws within the bounds of the
  distributions has state FISHING, a timer between 1 and 3, a position of at most
  \<^verbatim>\<open>POSITION_BOUND\<close>, and both offset fields raw 0, which the FLOATING branch reads as an
  x offset of -8 and a y offset of -8.
\<close>

theorem init_ship_fields:
  assumes "valid_init d"
  shows "getbits (init_ship d) STATE_SHIFT MASK_2BIT = ucast FISHING
       \<and> 1 \<le> getbits (init_ship d) TIMER_SHIFT MASK_2BIT
       \<and> getbits (init_ship d) TIMER_SHIFT MASK_2BIT \<le> 3
       \<and> getbits (init_ship d) POSITION_SHIFT MASK_34BIT \<le> POSITION_BOUND
       \<and> getbits (init_ship d) OFFSET_X_SHIFT MASK_4BIT = 0
       \<and> getbits (init_ship d) OFFSET_Y_SHIFT MASK_4BIT = 0
       \<and> offsetX_of (init_ship d) = - 8
       \<and> offsetY_of (init_ship d) = - 8"
proof -
  have tm: "initTimer d = 1 \<or> initTimer d = 2 \<or> initTimer d = 3"
    using assms by (intro int_cases_1_3) (simp_all add: valid_init_def)
  have "1 \<le> (word_of_int (initTimer d) :: 64 word) \<and> (word_of_int (initTimer d) :: 64 word) \<le> 3"
    using tm by auto
  then show ?thesis
    using init_position_less(1) [OF assms]
    by (simp add: init_ship_getbits [OF assms] offsetX_of_def offsetY_of_def FISHING_def)
qed

theorem init_ship_fields_witness:
  "valid_init \<lparr>initType = 2, initTimer = 1, initPosition = 999999\<rparr>
   \<and> init_ship \<lparr>initType = 2, initTimer = 1, initPosition = 999999\<rparr> = 0xF423F00016
   \<and> offsetX_of 0xF423F00016 = - 8 \<and> offsetY_of 0xF423F00016 = - 8
   \<and> getbits 0xF423F00016 POSITION_SHIFT MASK_34BIT = 999999"
proof -
  have h: "valid_init \<lparr>initType = 2, initTimer = 1, initPosition = 999999\<rparr>"
    by (simp add: valid_init_def POSITION_BOUND_eq)
  have e: "init_ship \<lparr>initType = 2, initTimer = 1, initPosition = 999999\<rparr> = 0xF423F00016"
    by (simp add: init_ship_def SHIFT_defs FISHING_def)
  show ?thesis
    using h init_ship_fields [OF h] init_ship_getbits(5) [OF h] by (simp add: e)
qed

section \<open>The catch\<close>

lemma consume_min:
  "consume requested amount = (min requested amount, amount - min requested amount)"
  by (auto simp add: consume_def min_def)

lemma consume_unat:
  assumes "consume requested amount = (actual, left)"
  shows "unat left + unat actual = unat amount" and "actual \<le> amount" and "left \<le> amount"
proof -
  from assms have a: "actual = min requested amount" and l: "left = amount - actual"
    by (auto simp add: consume_min)
  from a show le: "actual \<le> amount"
    by simp
  then have "unat left = unat amount - unat actual"
    unfolding l by (rule unat_sub)
  moreover have "unat actual \<le> unat amount"
    using le by (simp add: word_le_nat_alt)
  ultimately show "unat left + unat actual = unat amount"
    by simp
  then show "left \<le> amount"
    by (simp add: word_le_nat_alt)
qed

text \<open>
  Claim C4. For every cell map, every cell \<open>p\<close> and every requested catch: with \<open>amount\<close>
  the stored amount of the cell (the amount drawn from \<^verbatim>\<open>fishRng\<close> for a cell that is not
  in the map), the catch returned is the minimum of the request and \<open>amount\<close>, the map
  afterwards differs from the map before only at \<open>p\<close>, where it holds \<open>amount\<close> minus the
  returned catch; the subtraction does not wrap, so the new amount is at most the old one.
\<close>

theorem catch_fish_consume:
  "(let amount = (case cells p of None \<Rightarrow> word_of_int (fishRng d) | Some v \<Rightarrow> v);
        requested = (word_of_int (catchRng d) :: 8 word);
        (actual, left, cells', timers') = catch_fish d tk p cells timers
    in actual = min requested amount
     \<and> cells' = cells(p \<mapsto> left)
     \<and> left = amount - actual
     \<and> unat left + unat actual = unat amount
     \<and> left \<le> amount)"
proof (cases "cells p")
  case None
  obtain actual left where c: "consume (word_of_int (catchRng d)) (word_of_int (fishRng d)) = (actual, left)"
    by (cases "consume (word_of_int (catchRng d) :: 8 word) (word_of_int (fishRng d))")
  from c have "actual = min (word_of_int (catchRng d)) (word_of_int (fishRng d))"
    and "left = word_of_int (fishRng d) - actual"
    by (auto simp add: consume_min)
  with consume_unat [OF c] show ?thesis
    using None c by (simp add: catch_fish_def Let_def)
next
  case (Some v)
  obtain actual left where c: "consume (word_of_int (catchRng d)) v = (actual, left)"
    by (cases "consume (word_of_int (catchRng d) :: 8 word) v")
  from c have "actual = min (word_of_int (catchRng d)) v" and "left = v - actual"
    by (auto simp add: consume_min)
  with consume_unat [OF c] show ?thesis
    using Some c by (simp add: catch_fish_def Let_def)
qed


theorem catch_fish_consume_witness:
  "catch_fish \<lparr>shipTimerRng = 1, catchRng = 5, fishRng = 0, cellTimerRnd = 15,
               shipOffsetRngX = 0, shipOffsetRngY = 0\<rparr> 1 0 [0 \<mapsto> 3] (replicate 30 [])
     = (3, 0, [0 \<mapsto> 0], replicate 30 [])
   \<and> catch_fish \<lparr>shipTimerRng = 1, catchRng = 5, fishRng = 9, cellTimerRnd = 15,
               shipOffsetRngX = 0, shipOffsetRngY = 0\<rparr> 1 0 Map.empty (replicate 30 [])
     = (5, 4, [0 \<mapsto> 4], (replicate 30 [])[16 := [0]])"
  using catch_fish_consume [where cells = "[0 \<mapsto> 3]" and p = 0 and tk = 1
      and timers = "replicate 30 []" and d =
      "\<lparr>shipTimerRng = 1, catchRng = 5, fishRng = 0, cellTimerRnd = 15,
        shipOffsetRngX = 0, shipOffsetRngY = 0\<rparr>"]
    catch_fish_consume [where cells = Map.empty and p = 0 and tk = 1
      and timers = "replicate 30 []" and d =
      "\<lparr>shipTimerRng = 1, catchRng = 5, fishRng = 9, cellTimerRnd = 15,
        shipOffsetRngX = 0, shipOffsetRngY = 0\<rparr>"]
  by (simp add: catch_fish_def consume_def)

section \<open>Reading a record after a write\<close>

lemma and_MASK_2BIT_getbits: "ship AND MASK_2BIT = getbits ship 0 MASK_2BIT"
  by (simp add: getbits_def)

lemma sint_small:
  fixes w :: "64 word"
  assumes "w < 2 ^ 63"
  shows "sint w = uint w"
proof -
  have "- (2 ^ 63) \<le> uint w"
    by (rule order_trans [of _ 0]) simp_all
  moreover have "uint w < 2 ^ 63"
    using assms by (simp add: word_less_def)
  ultimately show ?thesis
    by (simp add: sint_uint signed_take_bit_int_eq_self)
qed

lemma getbits_mask_less:
  assumes "k < 64"
  shows "getbits n s (mask k) < 2 ^ k"
  unfolding getbits_def using assms by (intro and_mask_less') simp

lemma sint_getbits_4: "sint (getbits n s (mask 4)) = uint (getbits n s (mask 4))"
proof (rule sint_small)
  have "getbits n s (mask 4) < 2 ^ 4"
    by (rule getbits_mask_less) simp
  also have "(2 ^ 4 :: 64 word) < 2 ^ 63"
    by simp
  finally show "getbits n s (mask 4) < 2 ^ 63" .
qed

lemma offsetX_of_uint: "offsetX_of ship = uint (getbits ship OFFSET_X_SHIFT MASK_4BIT) - 8"
  by (simp add: offsetX_of_def MASK_masks sint_getbits_4)

lemma offsetY_of_uint: "offsetY_of ship = uint (getbits ship OFFSET_Y_SHIFT MASK_4BIT) - 8"
  by (simp add: offsetY_of_def MASK_masks sint_getbits_4)

lemma offset_range:
  "- 8 \<le> offsetX_of ship" "offsetX_of ship \<le> 7" "- 8 \<le> offsetY_of ship" "offsetY_of ship \<le> 7"
proof -
  have "uint (getbits ship OFFSET_X_SHIFT (mask 4)) < 2 ^ 4"
    unfolding getbits_def by (rule and_mask_lt_2p)
  then show "- 8 \<le> offsetX_of ship" "offsetX_of ship \<le> 7"
    by (simp_all add: offsetX_of_uint MASK_masks)
  have "uint (getbits ship OFFSET_Y_SHIFT (mask 4)) < 2 ^ 4"
    unfolding getbits_def by (rule and_mask_lt_2p)
  then show "- 8 \<le> offsetY_of ship" "offsetY_of ship \<le> 7"
    by (simp_all add: offsetY_of_uint MASK_masks)
qed

lemma offset_store:
  "0 \<le> k \<Longrightarrow> k < 16 \<Longrightarrow> sint ((word_of_int k :: 64 word) AND mask 4) = k"
  by (simp add: and_mask_wi take_bit_int_eq_self sint_uint uint_word_of_int
      signed_take_bit_int_eq_self)

lemma offsetX_of_setbits_X:
  assumes "0 \<le> k" "k < 16"
  shows "offsetX_of (setbits ship OFFSET_X_SHIFT MASK_4BIT (word_of_int k)) = k - 8"
  using assms
  by (simp add: offsetX_of_def MASK_masks SHIFT_defs getbits_setbits_same offset_store)

lemma offsetY_of_setbits_Y:
  assumes "0 \<le> k" "k < 16"
  shows "offsetY_of (setbits ship OFFSET_Y_SHIFT MASK_4BIT (word_of_int k)) = k - 8"
  using assms
  by (simp add: offsetY_of_def MASK_masks SHIFT_defs getbits_setbits_same offset_store)

lemma offsetX_of_setbits_other:
  assumes "s + k \<le> 54 \<or> 58 \<le> s"
  shows "offsetX_of (setbits ship s (mask k) v) = offsetX_of ship"
  using assms by (simp add: offsetX_of_def MASK_masks SHIFT_defs getbits_setbits_other)

lemma offsetY_of_setbits_other:
  assumes "s + k \<le> 58"
  shows "offsetY_of (setbits ship s (mask k) v) = offsetY_of ship"
  using assms by (simp add: offsetY_of_def MASK_masks SHIFT_defs getbits_setbits_other)

text \<open>A write to one field leaves the reads of the other fields as they were.\<close>

lemma getbits_frame:
  "getbits (setbits ship STATE_SHIFT MASK_2BIT v) 0 MASK_2BIT = getbits ship 0 MASK_2BIT"
  "getbits (setbits ship STATE_SHIFT MASK_2BIT v) TIMER_SHIFT MASK_2BIT = getbits ship TIMER_SHIFT MASK_2BIT"
  "getbits (setbits ship STATE_SHIFT MASK_2BIT v) FISH_SHIFT MASK_14BIT = getbits ship FISH_SHIFT MASK_14BIT"
  "getbits (setbits ship STATE_SHIFT MASK_2BIT v) POSITION_SHIFT MASK_34BIT = getbits ship POSITION_SHIFT MASK_34BIT"
  "getbits (setbits ship STATE_SHIFT MASK_2BIT v) OFFSET_X_SHIFT MASK_4BIT = getbits ship OFFSET_X_SHIFT MASK_4BIT"
  "getbits (setbits ship STATE_SHIFT MASK_2BIT v) OFFSET_Y_SHIFT MASK_4BIT = getbits ship OFFSET_Y_SHIFT MASK_4BIT"
  "getbits (setbits ship TIMER_SHIFT MASK_2BIT v) 0 MASK_2BIT = getbits ship 0 MASK_2BIT"
  "getbits (setbits ship TIMER_SHIFT MASK_2BIT v) STATE_SHIFT MASK_2BIT = getbits ship STATE_SHIFT MASK_2BIT"
  "getbits (setbits ship TIMER_SHIFT MASK_2BIT v) FISH_SHIFT MASK_14BIT = getbits ship FISH_SHIFT MASK_14BIT"
  "getbits (setbits ship TIMER_SHIFT MASK_2BIT v) POSITION_SHIFT MASK_34BIT = getbits ship POSITION_SHIFT MASK_34BIT"
  "getbits (setbits ship TIMER_SHIFT MASK_2BIT v) OFFSET_X_SHIFT MASK_4BIT = getbits ship OFFSET_X_SHIFT MASK_4BIT"
  "getbits (setbits ship TIMER_SHIFT MASK_2BIT v) OFFSET_Y_SHIFT MASK_4BIT = getbits ship OFFSET_Y_SHIFT MASK_4BIT"
  "getbits (setbits ship FISH_SHIFT MASK_14BIT v) 0 MASK_2BIT = getbits ship 0 MASK_2BIT"
  "getbits (setbits ship FISH_SHIFT MASK_14BIT v) STATE_SHIFT MASK_2BIT = getbits ship STATE_SHIFT MASK_2BIT"
  "getbits (setbits ship FISH_SHIFT MASK_14BIT v) TIMER_SHIFT MASK_2BIT = getbits ship TIMER_SHIFT MASK_2BIT"
  "getbits (setbits ship FISH_SHIFT MASK_14BIT v) POSITION_SHIFT MASK_34BIT = getbits ship POSITION_SHIFT MASK_34BIT"
  "getbits (setbits ship FISH_SHIFT MASK_14BIT v) OFFSET_X_SHIFT MASK_4BIT = getbits ship OFFSET_X_SHIFT MASK_4BIT"
  "getbits (setbits ship FISH_SHIFT MASK_14BIT v) OFFSET_Y_SHIFT MASK_4BIT = getbits ship OFFSET_Y_SHIFT MASK_4BIT"
  "getbits (setbits ship POSITION_SHIFT MASK_34BIT v) 0 MASK_2BIT = getbits ship 0 MASK_2BIT"
  "getbits (setbits ship POSITION_SHIFT MASK_34BIT v) STATE_SHIFT MASK_2BIT = getbits ship STATE_SHIFT MASK_2BIT"
  "getbits (setbits ship POSITION_SHIFT MASK_34BIT v) TIMER_SHIFT MASK_2BIT = getbits ship TIMER_SHIFT MASK_2BIT"
  "getbits (setbits ship POSITION_SHIFT MASK_34BIT v) FISH_SHIFT MASK_14BIT = getbits ship FISH_SHIFT MASK_14BIT"
  "getbits (setbits ship POSITION_SHIFT MASK_34BIT v) OFFSET_X_SHIFT MASK_4BIT = getbits ship OFFSET_X_SHIFT MASK_4BIT"
  "getbits (setbits ship POSITION_SHIFT MASK_34BIT v) OFFSET_Y_SHIFT MASK_4BIT = getbits ship OFFSET_Y_SHIFT MASK_4BIT"
  "getbits (setbits ship OFFSET_X_SHIFT MASK_4BIT v) 0 MASK_2BIT = getbits ship 0 MASK_2BIT"
  "getbits (setbits ship OFFSET_X_SHIFT MASK_4BIT v) STATE_SHIFT MASK_2BIT = getbits ship STATE_SHIFT MASK_2BIT"
  "getbits (setbits ship OFFSET_X_SHIFT MASK_4BIT v) TIMER_SHIFT MASK_2BIT = getbits ship TIMER_SHIFT MASK_2BIT"
  "getbits (setbits ship OFFSET_X_SHIFT MASK_4BIT v) FISH_SHIFT MASK_14BIT = getbits ship FISH_SHIFT MASK_14BIT"
  "getbits (setbits ship OFFSET_X_SHIFT MASK_4BIT v) POSITION_SHIFT MASK_34BIT = getbits ship POSITION_SHIFT MASK_34BIT"
  "getbits (setbits ship OFFSET_X_SHIFT MASK_4BIT v) OFFSET_Y_SHIFT MASK_4BIT = getbits ship OFFSET_Y_SHIFT MASK_4BIT"
  "getbits (setbits ship OFFSET_Y_SHIFT MASK_4BIT v) 0 MASK_2BIT = getbits ship 0 MASK_2BIT"
  "getbits (setbits ship OFFSET_Y_SHIFT MASK_4BIT v) STATE_SHIFT MASK_2BIT = getbits ship STATE_SHIFT MASK_2BIT"
  "getbits (setbits ship OFFSET_Y_SHIFT MASK_4BIT v) TIMER_SHIFT MASK_2BIT = getbits ship TIMER_SHIFT MASK_2BIT"
  "getbits (setbits ship OFFSET_Y_SHIFT MASK_4BIT v) FISH_SHIFT MASK_14BIT = getbits ship FISH_SHIFT MASK_14BIT"
  "getbits (setbits ship OFFSET_Y_SHIFT MASK_4BIT v) POSITION_SHIFT MASK_34BIT = getbits ship POSITION_SHIFT MASK_34BIT"
  "getbits (setbits ship OFFSET_Y_SHIFT MASK_4BIT v) OFFSET_X_SHIFT MASK_4BIT = getbits ship OFFSET_X_SHIFT MASK_4BIT"
  by (simp_all add: MASK_masks SHIFT_defs getbits_setbits_other)

lemma getbits_same:
  "getbits (setbits ship STATE_SHIFT MASK_2BIT v) STATE_SHIFT MASK_2BIT = v AND MASK_2BIT"
  "getbits (setbits ship TIMER_SHIFT MASK_2BIT v) TIMER_SHIFT MASK_2BIT = v AND MASK_2BIT"
  "getbits (setbits ship FISH_SHIFT MASK_14BIT v) FISH_SHIFT MASK_14BIT = v AND MASK_14BIT"
  "getbits (setbits ship POSITION_SHIFT MASK_34BIT v) POSITION_SHIFT MASK_34BIT = v AND MASK_34BIT"
  "getbits (setbits ship OFFSET_X_SHIFT MASK_4BIT v) OFFSET_X_SHIFT MASK_4BIT = v AND MASK_4BIT"
  "getbits (setbits ship OFFSET_Y_SHIFT MASK_4BIT v) OFFSET_Y_SHIFT MASK_4BIT = v AND MASK_4BIT"
  by (simp_all add: MASK_masks SHIFT_defs getbits_setbits_same)

lemma type_frame:
  "setbits ship STATE_SHIFT MASK_2BIT v AND MASK_2BIT = ship AND MASK_2BIT"
  "setbits ship TIMER_SHIFT MASK_2BIT v AND MASK_2BIT = ship AND MASK_2BIT"
  "setbits ship FISH_SHIFT MASK_14BIT v AND MASK_2BIT = ship AND MASK_2BIT"
  "setbits ship POSITION_SHIFT MASK_34BIT v AND MASK_2BIT = ship AND MASK_2BIT"
  "setbits ship OFFSET_X_SHIFT MASK_4BIT v AND MASK_2BIT = ship AND MASK_2BIT"
  "setbits ship OFFSET_Y_SHIFT MASK_4BIT v AND MASK_2BIT = ship AND MASK_2BIT"
  by (simp_all add: and_MASK_2BIT_getbits getbits_frame)

lemma offset_frame:
  "offsetX_of (setbits ship STATE_SHIFT MASK_2BIT v) = offsetX_of ship"
  "offsetX_of (setbits ship TIMER_SHIFT MASK_2BIT v) = offsetX_of ship"
  "offsetX_of (setbits ship FISH_SHIFT MASK_14BIT v) = offsetX_of ship"
  "offsetX_of (setbits ship POSITION_SHIFT MASK_34BIT v) = offsetX_of ship"
  "offsetX_of (setbits ship OFFSET_Y_SHIFT MASK_4BIT v) = offsetX_of ship"
  "offsetY_of (setbits ship STATE_SHIFT MASK_2BIT v) = offsetY_of ship"
  "offsetY_of (setbits ship TIMER_SHIFT MASK_2BIT v) = offsetY_of ship"
  "offsetY_of (setbits ship FISH_SHIFT MASK_14BIT v) = offsetY_of ship"
  "offsetY_of (setbits ship POSITION_SHIFT MASK_34BIT v) = offsetY_of ship"
  "offsetY_of (setbits ship OFFSET_X_SHIFT MASK_4BIT v) = offsetY_of ship"
  by (simp_all add: offsetX_of_def offsetY_of_def getbits_frame)

lemma state_store:
  "state_of (setbits ship STATE_SHIFT MASK_2BIT (ucast FLOATING)) = FLOATING"
  "state_of (setbits ship STATE_SHIFT MASK_2BIT (ucast FISHING)) = FISHING"
  "state_of (setbits ship STATE_SHIFT MASK_2BIT (ucast FINISHING)) = FINISHING"
  "state_of (setbits ship STATE_SHIFT MASK_2BIT (ucast DEAD)) = DEAD"
  unfolding getbits_same
  by (simp_all add: FLOATING_def FISHING_def FINISHING_def DEAD_def MASK_2BIT_def)

lemmas state_defs = FLOATING_def FISHING_def FINISHING_def DEAD_def

section \<open>FLOATING\<close>

lemma POSITION_BOUND_less: "POSITION_BOUND < 2 ^ 34"
  by (simp add: POSITION_BOUND_eq)

lemma position_store:
  assumes "p \<le> POSITION_BOUND"
  shows "position_of (setbits ship POSITION_SHIFT MASK_34BIT p) = p"
proof -
  have "p < 2 ^ 34"
    using assms POSITION_BOUND_less by (rule le_less_trans)
  then show ?thesis
    by (simp add: getbits_same) (simp add: MASK_masks less_mask_eq)
qed

lemma step_right:
  fixes p :: "64 word"
  assumes "p \<le> POSITION_BOUND"
  defines "q \<equiv> (if p + 1 > POSITION_BOUND then 0 else p + 1)"
  shows "q \<le> POSITION_BOUND"
    and "unat q = (if unat p = unat POSITION_BOUND then 0 else unat p + 1)"
  using assms(1) unfolding q_def POSITION_BOUND_eq
  by (auto simp add: word_le_nat_alt word_less_nat_alt unat_word_ariths)

lemma step_left:
  fixes p :: "64 word"
  assumes "p \<le> POSITION_BOUND"
  defines "q \<equiv> (if p - 1 > POSITION_BOUND then POSITION_BOUND else p - 1)"
  shows "q \<le> POSITION_BOUND"
    and "unat q = (if unat p = 0 then unat POSITION_BOUND else unat p - 1)"
  using assms(1) unfolding q_def POSITION_BOUND_eq
  by (auto simp add: word_le_nat_alt word_less_nat_alt unat_sub_if')

lemma step_up:
  fixes p :: "64 word"
  assumes "p \<le> POSITION_BOUND"
  defines "q \<equiv> (if p < WIDTH then POSITION_BOUND - (WIDTH - p - 1) else p - WIDTH)"
  shows "q \<le> POSITION_BOUND"
    and "unat q = (if unat p < 1000 then unat p + 999000 else unat p - 1000)"
  using assms(1) unfolding q_def POSITION_BOUND_eq WIDTH_def
  by (auto simp add: word_le_nat_alt word_less_nat_alt unat_sub_if' unat_word_ariths)

lemma step_down:
  fixes p :: "64 word"
  assumes "p \<le> POSITION_BOUND"
  defines "q \<equiv> (if p + WIDTH > POSITION_BOUND then WIDTH - (POSITION_BOUND - p) - 1 else p + WIDTH)"
  shows "q \<le> POSITION_BOUND"
    and "unat q = (if 999000 \<le> unat p then unat p - 999000 else unat p + 1000)"
  using assms(1) unfolding q_def POSITION_BOUND_eq WIDTH_def
  by (auto simp add: word_le_nat_alt word_less_nat_alt unat_sub_if' unat_word_ariths)


lemma update_ship_floating:
  assumes "i < length (ships s)" "state_of (ships s ! i) = FLOATING"
  shows "update_ship d i s = s\<lparr>ships := (ships s)[i := floating_step d (ships s ! i)]\<rparr>"
  using assms by (simp add: update_ship_def Let_def FLOATING_def DEAD_def)

lemma floating_step_right:
  assumes "0 < offsetX_of ship"
  shows "floating_step d ship =
     setbits (setbits ship OFFSET_X_SHIFT MASK_4BIT (word_of_int (offsetX_of ship - 1 + 8)))
       POSITION_SHIFT MASK_34BIT
       (if position_of ship + 1 > POSITION_BOUND then 0 else position_of ship + 1)"
  using assms by (simp add: floating_step_def Let_def)

lemma floating_step_left:
  assumes "offsetX_of ship < 0"
  shows "floating_step d ship =
     setbits (setbits ship OFFSET_X_SHIFT MASK_4BIT (word_of_int (offsetX_of ship + 1 + 8)))
       POSITION_SHIFT MASK_34BIT
       (if position_of ship - 1 > POSITION_BOUND then POSITION_BOUND else position_of ship - 1)"
  using assms by (simp add: floating_step_def Let_def)

lemma floating_step_up:
  assumes "offsetX_of ship = 0" "0 < offsetY_of ship"
  shows "floating_step d ship =
     setbits (setbits ship OFFSET_Y_SHIFT MASK_4BIT (word_of_int (offsetY_of ship - 1 + 8)))
       POSITION_SHIFT MASK_34BIT
       (if position_of ship < WIDTH then POSITION_BOUND - (WIDTH - position_of ship - 1)
        else position_of ship - WIDTH)"
  using assms by (simp add: floating_step_def Let_def)

lemma floating_step_down:
  assumes "offsetX_of ship = 0" "offsetY_of ship < 0"
  shows "floating_step d ship =
     setbits (setbits ship OFFSET_Y_SHIFT MASK_4BIT (word_of_int (offsetY_of ship + 1 + 8)))
       POSITION_SHIFT MASK_34BIT
       (if position_of ship + WIDTH > POSITION_BOUND
        then WIDTH - (POSITION_BOUND - position_of ship) - 1
        else position_of ship + WIDTH)"
  using assms by (simp add: floating_step_def Let_def)

lemma floating_step_arrive:
  assumes "offsetX_of ship = 0" "offsetY_of ship = 0"
  shows "floating_step d ship =
     setbits (setbits ship STATE_SHIFT MASK_2BIT (ucast FISHING))
       TIMER_SHIFT MASK_2BIT (word_of_int (shipTimerRng d))"
  using assms by (simp add: floating_step_def Let_def)

text \<open>
  Claim C2. An agent in FLOATING state whose position is on the grid and whose offsets are not
  both zero makes one step. When the x offset is not zero the step is along x: the x offset
  moves by one towards zero, the y offset stays, and the linear position goes up or down by
  one, wrapping only from \<^verbatim>\<open>POSITION_BOUND\<close> to 0 and from 0 to \<^verbatim>\<open>POSITION_BOUND\<close>, whatever
  the column. Only when the x offset is zero the step is along y: the y offset moves by one
  towards zero and the position changes by the width of the grid, wrapping between the first
  and the last row. The agent stays FLOATING.
\<close>

theorem floating_moves_one_step:
  fixes s :: sim and d :: draw and i :: nat
  assumes "i < length (ships s)"
    and "state_of (ships s ! i) = FLOATING"
    and "position_of (ships s ! i) \<le> POSITION_BOUND"
    and "\<not> (offsetX_of (ships s ! i) = 0 \<and> offsetY_of (ships s ! i) = 0)"
  defines "ship \<equiv> ships s ! i"
    and "ship' \<equiv> ships (update_ship d i s) ! i"
  shows "state_of ship' = FLOATING
    \<and> (0 < offsetX_of ship \<longrightarrow>
          offsetX_of ship' = offsetX_of ship - 1 \<and> offsetY_of ship' = offsetY_of ship
        \<and> unat (position_of ship') =
            (if unat (position_of ship) = unat POSITION_BOUND then 0
             else unat (position_of ship) + 1))
    \<and> (offsetX_of ship < 0 \<longrightarrow>
          offsetX_of ship' = offsetX_of ship + 1 \<and> offsetY_of ship' = offsetY_of ship
        \<and> unat (position_of ship') =
            (if unat (position_of ship) = 0 then unat POSITION_BOUND
             else unat (position_of ship) - 1))
    \<and> (offsetX_of ship = 0 \<and> 0 < offsetY_of ship \<longrightarrow>
          offsetX_of ship' = 0 \<and> offsetY_of ship' = offsetY_of ship - 1
        \<and> unat (position_of ship') =
            (if unat (position_of ship) < unat WIDTH
             then unat (position_of ship) + unat WIDTH * (unat HEIGHT - 1)
             else unat (position_of ship) - unat WIDTH))
    \<and> (offsetX_of ship = 0 \<and> offsetY_of ship < 0 \<longrightarrow>
          offsetX_of ship' = 0 \<and> offsetY_of ship' = offsetY_of ship + 1
        \<and> unat (position_of ship') =
            (if unat WIDTH * (unat HEIGHT - 1) \<le> unat (position_of ship)
             then unat (position_of ship) - unat WIDTH * (unat HEIGHT - 1)
             else unat (position_of ship) + unat WIDTH))"
proof -
  have ship': "ship' = floating_step d ship"
    using assms(1,2) by (simp add: ship'_def ship_def update_ship_floating)
  have pos: "position_of ship \<le> POSITION_BOUND"
    using assms(3) by (simp add: ship_def)
  have st: "state_of ship = FLOATING"
    using assms(2) by (simp add: ship_def)
  note rng = offset_range [of ship]
  have right: "offsetX_of ship' = offsetX_of ship - 1 \<and> offsetY_of ship' = offsetY_of ship
        \<and> state_of ship' = FLOATING
        \<and> unat (position_of ship') =
            (if unat (position_of ship) = unat POSITION_BOUND then 0
             else unat (position_of ship) + 1)"
    if "0 < offsetX_of ship"
    using that rng st step_right [OF pos]
      offsetX_of_setbits_X [of "offsetX_of ship - 1 + 8" ship]
    by (simp add: ship' floating_step_right position_store getbits_frame offset_frame)
  have left: "offsetX_of ship' = offsetX_of ship + 1 \<and> offsetY_of ship' = offsetY_of ship
        \<and> state_of ship' = FLOATING
        \<and> unat (position_of ship') =
            (if unat (position_of ship) = 0 then unat POSITION_BOUND
             else unat (position_of ship) - 1)"
    if "offsetX_of ship < 0"
    using that rng st step_left [OF pos]
      offsetX_of_setbits_X [of "offsetX_of ship + 1 + 8" ship]
    by (simp add: ship' floating_step_left position_store getbits_frame offset_frame)
  have up: "offsetX_of ship' = 0 \<and> offsetY_of ship' = offsetY_of ship - 1
        \<and> state_of ship' = FLOATING
        \<and> unat (position_of ship') =
            (if unat (position_of ship) < unat WIDTH
             then unat (position_of ship) + unat WIDTH * (unat HEIGHT - 1)
             else unat (position_of ship) - unat WIDTH)"
    if "offsetX_of ship = 0" "0 < offsetY_of ship"
    using that rng st step_up [OF pos]
      offsetY_of_setbits_Y [of "offsetY_of ship - 1 + 8" ship]
    by (simp add: ship' floating_step_up position_store getbits_frame offset_frame
        WIDTH_def HEIGHT_def)
  have down: "offsetX_of ship' = 0 \<and> offsetY_of ship' = offsetY_of ship + 1
        \<and> state_of ship' = FLOATING
        \<and> unat (position_of ship') =
            (if unat WIDTH * (unat HEIGHT - 1) \<le> unat (position_of ship)
             then unat (position_of ship) - unat WIDTH * (unat HEIGHT - 1)
             else unat (position_of ship) + unat WIDTH)"
    if "offsetX_of ship = 0" "offsetY_of ship < 0"
    using that rng st step_down [OF pos]
      offsetY_of_setbits_Y [of "offsetY_of ship + 1 + 8" ship]
    by (simp add: ship' floating_step_down position_store getbits_frame offset_frame
        WIDTH_def HEIGHT_def)
  have "offsetX_of ship \<noteq> 0 \<or> offsetY_of ship \<noteq> 0"
    using assms(4) by (simp add: ship_def)
  then consider "0 < offsetX_of ship" | "offsetX_of ship < 0"
    | "offsetX_of ship = 0" "0 < offsetY_of ship" | "offsetX_of ship = 0" "offsetY_of ship < 0"
    by linarith
  then show ?thesis
  proof cases
    case 1
    with right show ?thesis by simp
  next
    case 2
    with left show ?thesis by simp
  next
    case 3
    with up show ?thesis by simp
  next
    case 4
    with down show ?thesis by simp
  qed
qed


theorem floating_moves_one_step_witness:
  "0 < length [0x224000003E700002 :: 64 word]
   \<and> state_of 0x224000003E700002 = FLOATING
   \<and> position_of 0x224000003E700002 = 999 \<and> (999 :: 64 word) \<le> POSITION_BOUND
   \<and> offsetX_of 0x224000003E700002 = 1 \<and> offsetY_of 0x224000003E700002 = 0
   \<and> offsetX_of (ships (update_ship
          \<lparr>shipTimerRng = 1, catchRng = 1, fishRng = 0, cellTimerRnd = 15,
            shipOffsetRngX = 0, shipOffsetRngY = 0\<rparr> 0
          \<lparr>activeCells = Map.empty, cellsTimers = replicate 30 [],
           ships = [0x224000003E700002], activeShips = 1, tick = 1, pc = Some 0\<rparr>) ! 0) = 0
   \<and> unat (position_of (ships (update_ship
          \<lparr>shipTimerRng = 1, catchRng = 1, fishRng = 0, cellTimerRnd = 15,
            shipOffsetRngX = 0, shipOffsetRngY = 0\<rparr> 0
          \<lparr>activeCells = Map.empty, cellsTimers = replicate 30 [],
           ships = [0x224000003E700002], activeShips = 1, tick = 1, pc = Some 0\<rparr>) ! 0)) = 1000"
proof -
  let ?s = "\<lparr>activeCells = Map.empty, cellsTimers = replicate 30 [],
             ships = [0x224000003E700002 :: 64 word], activeShips = 1, tick = 1, pc = Some 0\<rparr>"
  have st: "state_of 0x224000003E700002 = FLOATING"
    by (simp add: getbits_def SHIFT_defs MASK_2BIT_def FLOATING_def)
  have p: "position_of 0x224000003E700002 = 999"
    by (simp add: getbits_def SHIFT_defs MASK_34BIT_def)
  have b: "(999 :: 64 word) \<le> POSITION_BOUND"
    by (simp add: POSITION_BOUND_eq)
  have x: "offsetX_of 0x224000003E700002 = 1"
    by (simp add: offsetX_of_def getbits_def SHIFT_defs MASK_4BIT_def)
  have y: "offsetY_of 0x224000003E700002 = 0"
    by (simp add: offsetY_of_def getbits_def SHIFT_defs MASK_4BIT_def)
  have h1: "0 < length (ships ?s)"
    by simp
  have h2: "state_of (ships ?s ! 0) = FLOATING"
    using st by simp
  have h3: "position_of (ships ?s ! 0) \<le> POSITION_BOUND"
    using p b by simp
  have h4: "\<not> (offsetX_of (ships ?s ! 0) = 0 \<and> offsetY_of (ships ?s ! 0) = 0)"
    using x by simp
  show ?thesis
    using floating_moves_one_step [OF h1 h2 h3 h4, of "\<lparr>shipTimerRng = 1, catchRng = 1, fishRng = 0, cellTimerRnd = 15,
            shipOffsetRngX = 0, shipOffsetRngY = 0\<rparr>"] st p b x y
    by (simp add: POSITION_BOUND_eq)
qed

section \<open>FINISHING\<close>

lemma update_ship_finishing:
  assumes "i < length (ships s)" "state_of (ships s ! i) = FINISHING"
  shows "update_ship d i s =
     s\<lparr>activeShips := snd (finishing_step (ships s ! i) (activeShips s)),
       ships := (ships s)[i := fst (finishing_step (ships s ! i) (activeShips s))]\<rparr>"
  using assms
  by (simp add: update_ship_def Let_def FLOATING_def DEAD_def FINISHING_def FISHING_def
      split: prod.split)

lemma distanceLeft_zero:
  fixes p :: "64 word"
  shows "WIDTH - (p mod WIDTH + 1) = 0 \<longleftrightarrow> unat p mod unat WIDTH = unat WIDTH - 1"
proof -
  have m: "unat (p mod WIDTH) = unat p mod 1000"
    by (simp add: unat_mod WIDTH_def)
  have "unat p mod 1000 < 1000"
    by simp
  then have "unat (p mod WIDTH + 1) = unat p mod 1000 + 1"
    using m by (simp add: unat_word_ariths)
  moreover have "WIDTH - (p mod WIDTH + 1) = 0 \<longleftrightarrow> p mod WIDTH + 1 = WIDTH"
    by auto
  moreover have "p mod WIDTH + 1 = WIDTH \<longleftrightarrow> unat (p mod WIDTH + 1) = unat WIDTH"
    by (simp add: word_unat_eq_iff)
  ultimately show ?thesis
    by (auto simp add: WIDTH_def)
qed

lemma succ_div_same:
  fixes n :: nat
  assumes "n mod 1000 \<noteq> 999"
  shows "(n + 1) div 1000 = n div 1000"
proof -
  have "n mod 1000 < 1000"
    by simp
  with assms have "n mod 1000 + 1 < 1000"
    by linarith
  then have "(n mod 1000 + 1) div 1000 = 0"
    by simp
  then show ?thesis
    using div_add1_eq [of n 1 1000] by simp
qed

lemma next_in_row:
  fixes p :: "64 word"
  assumes "p \<le> POSITION_BOUND" "unat p mod unat WIDTH \<noteq> unat WIDTH - 1"
  shows "unat (p + 1) = unat p + 1"
    and "unat (p + 1) div unat WIDTH = unat p div unat WIDTH"
    and "p + 1 \<le> POSITION_BOUND"
proof -
  have le: "unat p \<le> 999999"
    using assms(1) by (simp add: word_le_nat_alt POSITION_BOUND_eq)
  then show u: "unat (p + 1) = unat p + 1"
    by (simp add: unat_word_ariths)
  have m: "unat p mod 1000 \<noteq> 999"
    using assms(2) by (simp add: WIDTH_def)
  from succ_div_same [OF m] show "unat (p + 1) div unat WIDTH = unat p div unat WIDTH"
    by (simp add: u WIDTH_def)
  have "unat p \<noteq> 999999"
  proof
    assume "unat p = 999999"
    then have "unat p mod 1000 = 999"
      by simp
    with m show False ..
  qed
  with le show "p + 1 \<le> POSITION_BOUND"
    by (simp add: word_le_nat_alt POSITION_BOUND_eq u)
qed

text \<open>
  Claim C9. An agent in FINISHING state whose position is on the grid: when it stands in the
  last column of its row it becomes DEAD in this update, its position stays and
  \<^verbatim>\<open>activeShips\<close> goes down by exactly 1; otherwise it stays FINISHING, \<^verbatim>\<open>activeShips\<close> is
  unchanged, and its position goes up by exactly 1, without wrap-around and within the same
  row.
\<close>

theorem finishing_moves_or_dies:
  fixes s :: sim and d :: draw and i :: nat
  assumes "i < length (ships s)"
    and "state_of (ships s ! i) = FINISHING"
    and "position_of (ships s ! i) \<le> POSITION_BOUND"
  defines "ship \<equiv> ships s ! i"
    and "s' \<equiv> update_ship d i s"
  shows "(unat (position_of ship) mod unat WIDTH = unat WIDTH - 1 \<longrightarrow>
            state_of (ships s' ! i) = DEAD
          \<and> activeShips s' = activeShips s - 1
          \<and> position_of (ships s' ! i) = position_of ship)
       \<and> (unat (position_of ship) mod unat WIDTH \<noteq> unat WIDTH - 1 \<longrightarrow>
            state_of (ships s' ! i) = FINISHING
          \<and> activeShips s' = activeShips s
          \<and> unat (position_of (ships s' ! i)) = unat (position_of ship) + 1
          \<and> unat (position_of (ships s' ! i)) div unat WIDTH
              = unat (position_of ship) div unat WIDTH
          \<and> position_of (ships s' ! i) \<le> POSITION_BOUND)"
proof (intro conjI impI)
  have s': "s' = s\<lparr>activeShips := snd (finishing_step ship (activeShips s)),
       ships := (ships s)[i := fst (finishing_step ship (activeShips s))]\<rparr>"
    using assms(1,2) by (simp add: s'_def ship_def update_ship_finishing)
  have pos: "position_of ship \<le> POSITION_BOUND"
    using assms(3) by (simp add: ship_def)
  have st: "state_of ship = FINISHING"
    using assms(2) by (simp add: ship_def)
  {
    assume last: "unat (position_of ship) mod unat WIDTH = unat WIDTH - 1"
    then have f: "finishing_step ship (activeShips s)
        = (setbits ship STATE_SHIFT MASK_2BIT (ucast DEAD), activeShips s - 1)"
      unfolding finishing_step_def Let_def distanceLeft_zero by simp
    show "state_of (ships s' ! i) = DEAD"
      using assms(1) by (simp add: s' f state_store)
    show "activeShips s' = activeShips s - 1"
      by (simp add: s' f)
    show "position_of (ships s' ! i) = position_of ship"
      using assms(1) by (simp add: s' f getbits_frame)
  }
  {
    assume inner: "unat (position_of ship) mod unat WIDTH \<noteq> unat WIDTH - 1"
    then have f: "finishing_step ship (activeShips s)
        = (setbits ship POSITION_SHIFT MASK_34BIT (position_of ship + 1), activeShips s)"
      unfolding finishing_step_def Let_def distanceLeft_zero by simp
    note n = next_in_row [OF pos inner]
    have p': "position_of (ships s' ! i) = position_of ship + 1"
      using assms(1) n(3) by (simp add: s' f position_store)
    show "state_of (ships s' ! i) = FINISHING"
      using assms(1) st by (simp add: s' f getbits_frame)
    show "activeShips s' = activeShips s"
      by (simp add: s' f)
    show "unat (position_of (ships s' ! i)) = unat (position_of ship) + 1"
      unfolding p' by (rule n(1))
    show "unat (position_of (ships s' ! i)) div unat WIDTH
        = unat (position_of ship) div unat WIDTH"
      unfolding p' by (rule n(2))
    show "position_of (ships s' ! i) \<le> POSITION_BOUND"
      unfolding p' by (rule n(3))
  }
qed


theorem finishing_moves_or_dies_witness:
  "state_of 0x3E79C409 = FINISHING \<and> position_of 0x3E79C409 = 999 \<and> (999 :: 64 word) \<le> POSITION_BOUND
   \<and> state_of (ships (update_ship
          \<lparr>shipTimerRng = 1, catchRng = 1, fishRng = 0, cellTimerRnd = 15,
            shipOffsetRngX = 0, shipOffsetRngY = 0\<rparr> 1
          \<lparr>activeCells = Map.empty, cellsTimers = replicate 30 [],
           ships = [0x3E69C409, 0x3E79C409], activeShips = 2, tick = 7, pc = Some 1\<rparr>) ! 1) = DEAD
   \<and> activeShips (update_ship
          \<lparr>shipTimerRng = 1, catchRng = 1, fishRng = 0, cellTimerRnd = 15,
            shipOffsetRngX = 0, shipOffsetRngY = 0\<rparr> 1
          \<lparr>activeCells = Map.empty, cellsTimers = replicate 30 [],
           ships = [0x3E69C409, 0x3E79C409], activeShips = 2, tick = 7, pc = Some 1\<rparr>) = 1
   \<and> state_of 0x3E69C409 = FINISHING \<and> position_of 0x3E69C409 = 998 \<and> (998 :: 64 word) \<le> POSITION_BOUND
   \<and> unat (position_of (ships (update_ship
          \<lparr>shipTimerRng = 1, catchRng = 1, fishRng = 0, cellTimerRnd = 15,
            shipOffsetRngX = 0, shipOffsetRngY = 0\<rparr> 0
          \<lparr>activeCells = Map.empty, cellsTimers = replicate 30 [],
           ships = [0x3E69C409, 0x3E79C409], activeShips = 2, tick = 7, pc = Some 0\<rparr>) ! 0)) = 999
   \<and> activeShips (update_ship
          \<lparr>shipTimerRng = 1, catchRng = 1, fishRng = 0, cellTimerRnd = 15,
            shipOffsetRngX = 0, shipOffsetRngY = 0\<rparr> 0
          \<lparr>activeCells = Map.empty, cellsTimers = replicate 30 [],
           ships = [0x3E69C409, 0x3E79C409], activeShips = 2, tick = 7, pc = Some 0\<rparr>) = 2"
proof -
  let ?s = "\<lambda>i. \<lparr>activeCells = Map.empty, cellsTimers = replicate 30 [],
             ships = [0x3E69C409, 0x3E79C409 :: 64 word], activeShips = 2, tick = 7, pc = Some i\<rparr>"
  have sa: "state_of 0x3E79C409 = FINISHING"
    by (simp add: getbits_def SHIFT_defs MASK_2BIT_def FINISHING_def)
  have pa: "position_of 0x3E79C409 = 999"
    by (simp add: getbits_def SHIFT_defs MASK_34BIT_def)
  have ba: "(999 :: 64 word) \<le> POSITION_BOUND"
    by (simp add: POSITION_BOUND_eq)
  have sb: "state_of 0x3E69C409 = FINISHING"
    by (simp add: getbits_def SHIFT_defs MASK_2BIT_def FINISHING_def)
  have pb: "position_of 0x3E69C409 = 998"
    by (simp add: getbits_def SHIFT_defs MASK_34BIT_def)
  have bb: "(998 :: 64 word) \<le> POSITION_BOUND"
    by (simp add: POSITION_BOUND_eq)
  have a1: "1 < length (ships (?s 1))" and a2: "state_of (ships (?s 1) ! 1) = FINISHING"
    and a3: "position_of (ships (?s 1) ! 1) \<le> POSITION_BOUND"
    using sa pa ba by simp_all
  have b1: "0 < length (ships (?s 0))" and b2: "state_of (ships (?s 0) ! 0) = FINISHING"
    and b3: "position_of (ships (?s 0) ! 0) \<le> POSITION_BOUND"
    using sb pb bb by simp_all
  show ?thesis
    using finishing_moves_or_dies [OF a1 a2 a3, of "\<lparr>shipTimerRng = 1, catchRng = 1, fishRng = 0, cellTimerRnd = 15,
            shipOffsetRngX = 0, shipOffsetRngY = 0\<rparr>"] finishing_moves_or_dies [OF b1 b2 b3, of "\<lparr>shipTimerRng = 1, catchRng = 1, fishRng = 0, cellTimerRnd = 15,
            shipOffsetRngX = 0, shipOffsetRngY = 0\<rparr>"]
      sa pa ba sb pb bb
    by (simp add: WIDTH_def)
qed

section \<open>FISHING\<close>

lemma update_ship_fishing:
  assumes "i < length (ships s)" "state_of (ships s ! i) = FISHING"
    and "fishing_step d (tick s) (type_of (ships s ! i)) (ships s ! i) (activeCells s)
           (cellsTimers s) = (ship, cells, timers)"
  shows "update_ship d i s =
     s\<lparr>activeCells := cells, cellsTimers := timers, ships := (ships s)[i := ship]\<rparr>"
  using assms by (simp add: update_ship_def Let_def state_defs)

lemma fish_sum:
  fixes fc :: "8 word"
  shows "sint (fish_of ship + ucast fc) = uint (fish_of ship) + uint fc"
proof -
  have a: "uint (fish_of ship) < 2 ^ 14"
    unfolding getbits_def MASK_14BIT_mask by (rule and_mask_lt_2p)
  have c: "uint fc < 2 ^ 8"
    using uint_lt2p [of fc] by simp
  have b: "uint (ucast fc :: 64 word) = uint fc"
    using c by (simp add: unsigned_ucast_eq take_bit_int_eq_self)
  have "uint (fish_of ship) + uint (ucast fc :: 64 word) < 2 ^ 63"
    using a c unfolding b by simp
  then have s: "uint (fish_of ship + ucast fc) = uint (fish_of ship) + uint fc"
    using b by (simp add: uint_word_ariths)
  then have "fish_of ship + ucast fc < 2 ^ 63"
    using a c by (simp add: word_less_def)
  then show ?thesis
    using s by (simp add: sint_small)
qed

lemma fishTimer_fires:
  "(ucast (timer_of ship) :: 8 word) - 1 > 0 \<longleftrightarrow> timer_of ship \<noteq> 1"
proof -
  have "timer_of ship < 2 ^ 2"
    unfolding MASK_2BIT_mask by (rule getbits_mask_less) simp
  then have "unat (timer_of ship) < 4"
    by (simp add: word_less_nat_alt)
  then have u: "unat (ucast (timer_of ship) :: 8 word) = unat (timer_of ship)"
    by (simp add: unsigned_ucast_eq take_bit_nat_eq_self)
  have "(ucast (timer_of ship) :: 8 word) - 1 > 0 \<longleftrightarrow> (ucast (timer_of ship) :: 8 word) \<noteq> 1"
    by (simp add: word_greater_zero_iff)
  also have "\<dots> \<longleftrightarrow> unat (ucast (timer_of ship) :: 8 word) \<noteq> 1"
    by (simp add: word_unat_eq_iff)
  also have "\<dots> \<longleftrightarrow> timer_of ship \<noteq> 1"
    unfolding u by (simp add: word_unat_eq_iff)
  finally show ?thesis .
qed

lemma fishing_step_wait:
  assumes "timer_of ship \<noteq> 1"
  shows "fishing_step d tk ty ship cells timers =
     (setbits ship TIMER_SHIFT MASK_2BIT (ucast ((ucast (timer_of ship) :: 8 word) - 1)),
      cells, timers)"
  using assms fishTimer_fires [of ship] by (simp add: fishing_step_def Let_def)

lemma win_count_eq:
  fixes fc :: "8 word"
  shows "(word_of_int (min (uint (fish_of ship) + uint fc) WIN_FISH_COUNT) :: 64 word)
           = word_of_int WIN_FISH_COUNT
         \<longleftrightarrow> WIN_FISH_COUNT \<le> uint (fish_of ship) + uint fc"
proof -
  have "0 \<le> min (uint (fish_of ship) + uint fc) WIN_FISH_COUNT"
    by (simp add: WIN_FISH_COUNT_def)
  moreover have "min (uint (fish_of ship) + uint fc) WIN_FISH_COUNT < 2 ^ 64"
    by (simp add: WIN_FISH_COUNT_def min_def)
  ultimately have "uint (word_of_int (min (uint (fish_of ship) + uint fc) WIN_FISH_COUNT) :: 64 word)
      = min (uint (fish_of ship) + uint fc) WIN_FISH_COUNT"
    by (simp add: uint_word_of_int)
  moreover have "uint (word_of_int WIN_FISH_COUNT :: 64 word) = WIN_FISH_COUNT"
    by (simp add: WIN_FISH_COUNT_def)
  ultimately show ?thesis
    by (auto simp add: word_uint_eq_iff min_def)
qed

lemma fishing_step_fire:
  assumes "timer_of ship = 1"
    and "catch_fish d tk (position_of ship) cells timers = (fc, cfc, cells', timers')"
  shows "fishing_step d tk ty ship cells timers =
     (let ship1 = setbits ship TIMER_SHIFT MASK_2BIT 0;
          ship2 = setbits ship1 FISH_SHIFT MASK_14BIT
                    (word_of_int (min (uint (fish_of ship) + uint fc) WIN_FISH_COUNT))
      in if WIN_FISH_COUNT \<le> uint (fish_of ship) + uint fc
         then (setbits ship2 STATE_SHIFT MASK_2BIT (ucast FINISHING), cells', timers')
         else (after_catch d ty cfc ship2, cells', timers'))"
  using assms fish_sum [of "setbits ship TIMER_SHIFT MASK_2BIT 0" fc]
  by (simp add: fishing_step_def Let_def getbits_frame win_count_eq)


lemma fish_store_win:
  "uint (fish_of (setbits ship FISH_SHIFT MASK_14BIT (word_of_int WIN_FISH_COUNT))) = WIN_FISH_COUNT"
  unfolding getbits_same by (simp add: WIN_FISH_COUNT_def MASK_14BIT_def)

lemma timer_store_zero: "timer_of (setbits ship TIMER_SHIFT MASK_2BIT 0) = 0"
  unfolding getbits_same by simp

text \<open>
  Claim C8. An agent in FISHING state whose timer fires in this update (it holds 1 and is
  decremented to 0) and whose fish count plus the catch reaches \<^verbatim>\<open>WIN_FISH_COUNT\<close> is in
  FINISHING state after the update, whatever its type. Nothing of the switch on the type is
  done: the timer is left at 0, both offsets, the position and the type are as before, and
  the fish count is \<^verbatim>\<open>WIN_FISH_COUNT\<close>.
\<close>

theorem win_overrides_type:
  fixes s :: sim and d :: draw and i :: nat
  assumes "i < length (ships s)"
    and "state_of (ships s ! i) = FISHING"
    and "timer_of (ships s ! i) = 1"
    and "WIN_FISH_COUNT \<le> uint (fish_of (ships s ! i))
           + uint (fst (catch_fish d (tick s) (position_of (ships s ! i))
                          (activeCells s) (cellsTimers s)))"
  defines "ship \<equiv> ships s ! i"
    and "ship' \<equiv> ships (update_ship d i s) ! i"
  shows "state_of ship' = FINISHING
       \<and> uint (fish_of ship') = WIN_FISH_COUNT
       \<and> timer_of ship' = 0
       \<and> offsetX_of ship' = offsetX_of ship
       \<and> offsetY_of ship' = offsetY_of ship
       \<and> position_of ship' = position_of ship
       \<and> type_of ship' = type_of ship"
proof -
  obtain fc cfc cells' timers' where
    c: "catch_fish d (tick s) (position_of ship) (activeCells s) (cellsTimers s)
          = (fc, cfc, cells', timers')"
    by (cases "catch_fish d (tick s) (position_of ship) (activeCells s) (cellsTimers s)")
  have win: "WIN_FISH_COUNT \<le> uint (fish_of ship) + uint fc"
    using assms(4) c by (simp add: ship_def)
  then have m: "min (uint (fish_of ship) + uint fc) WIN_FISH_COUNT = WIN_FISH_COUNT"
    by simp
  have tm: "timer_of ship = 1"
    using assms(3) by (simp add: ship_def)
  define ship2 where "ship2 = setbits (setbits ship TIMER_SHIFT MASK_2BIT 0)
      FISH_SHIFT MASK_14BIT (word_of_int WIN_FISH_COUNT)"
  have f: "fishing_step d (tick s) (type_of ship) ship (activeCells s) (cellsTimers s)
      = (setbits ship2 STATE_SHIFT MASK_2BIT (ucast FINISHING), cells', timers')"
    using fishing_step_fire [OF tm c, of "type_of ship"] win
    by (simp add: Let_def m ship2_def)
  have ship': "ship' = setbits ship2 STATE_SHIFT MASK_2BIT (ucast FINISHING)"
    using assms(1,2) f by (simp add: ship'_def ship_def update_ship_fishing)
  show ?thesis
    unfolding ship' ship2_def
    by (simp add: state_store getbits_frame offset_frame type_frame fish_store_win
        timer_store_zero)
qed

theorem win_overrides_type_witness:
  "state_of 0x220000000059C396 = FISHING \<and> timer_of 0x220000000059C396 = 1 \<and> type_of 0x220000000059C396 = RESTLESS
   \<and> fish_of 0x220000000059C396 = 9998 \<and> position_of 0x220000000059C396 = 5
   \<and> offsetX_of 0x220000000059C396 = 0
   \<and> catch_fish \<lparr>shipTimerRng = 3, catchRng = 5, fishRng = 0, cellTimerRnd = 15,
         shipOffsetRngX = 0, shipOffsetRngY = 0\<rparr> 7 5 [5 \<mapsto> 3] (replicate 30 [])
       = (3, 0, [5 \<mapsto> 0], replicate 30 [])
   \<and> state_of (ships (update_ship
         \<lparr>shipTimerRng = 3, catchRng = 5, fishRng = 0, cellTimerRnd = 15,
           shipOffsetRngX = 0, shipOffsetRngY = 0\<rparr> 0
         \<lparr>activeCells = [5 \<mapsto> 3], cellsTimers = replicate 30 [],
           ships = [0x220000000059C396], activeShips = 1, tick = 7, pc = Some 0\<rparr>) ! 0) = FINISHING
   \<and> offsetX_of (ships (update_ship
         \<lparr>shipTimerRng = 3, catchRng = 5, fishRng = 0, cellTimerRnd = 15,
           shipOffsetRngX = 0, shipOffsetRngY = 0\<rparr> 0
         \<lparr>activeCells = [5 \<mapsto> 3], cellsTimers = replicate 30 [],
           ships = [0x220000000059C396], activeShips = 1, tick = 7, pc = Some 0\<rparr>) ! 0) = 0"
proof -
  let ?d = "\<lparr>shipTimerRng = 3, catchRng = 5, fishRng = 0, cellTimerRnd = 15,
             shipOffsetRngX = 0, shipOffsetRngY = 0\<rparr>"
  let ?s = "\<lparr>activeCells = [5 \<mapsto> 3], cellsTimers = replicate 30 [],
             ships = [0x220000000059C396 :: 64 word], activeShips = 1, tick = 7, pc = Some 0\<rparr>"
  have st: "state_of 0x220000000059C396 = FISHING"
    by (simp add: getbits_def SHIFT_defs MASK_2BIT_def FISHING_def)
  have tm: "timer_of 0x220000000059C396 = 1"
    by (simp add: getbits_def SHIFT_defs MASK_2BIT_def)
  have ty: "type_of 0x220000000059C396 = RESTLESS"
    by (simp add: MASK_2BIT_def RESTLESS_def)
  have fi: "fish_of 0x220000000059C396 = 9998"
    by (simp add: getbits_def SHIFT_defs MASK_14BIT_def)
  have po: "position_of 0x220000000059C396 = 5"
    by (simp add: getbits_def SHIFT_defs MASK_34BIT_def)
  have ox: "offsetX_of 0x220000000059C396 = 0"
    by (simp add: offsetX_of_def getbits_def SHIFT_defs MASK_4BIT_def)
  have ca: "catch_fish ?d 7 5 [5 \<mapsto> 3] (replicate 30 []) = (3, 0, [5 \<mapsto> 0], replicate 30 [])"
    by (simp add: catch_fish_def consume_def)
  have h1: "0 < length (ships ?s)"
    by simp
  have h2: "state_of (ships ?s ! 0) = FISHING"
    using st by simp
  have h3: "timer_of (ships ?s ! 0) = 1"
    using tm by simp
  have h4: "WIN_FISH_COUNT \<le> uint (fish_of (ships ?s ! 0))
      + uint (fst (catch_fish ?d (tick ?s) (position_of (ships ?s ! 0))
                     (activeCells ?s) (cellsTimers ?s)))"
    using fi po ca by (simp add: WIN_FISH_COUNT_def)
  show ?thesis
    using win_overrides_type [OF h1 h2 h3 h4] st tm ty fi po ox ca
    by simp
qed

section \<open>The first catch of a RESTLESS ship\<close>

lemma restless_fishing_step:
  "fishing_step \<lparr>shipTimerRng = 1, catchRng = 1, fishRng = 5, cellTimerRnd = 15,
        shipOffsetRngX = 0, shipOffsetRngY = 0\<rparr> 1 RESTLESS 22 Map.empty timers
     = (0x240000000000042, [0 \<mapsto> 4], timers[16 := timers ! 16 @ [0]])"
proof -
  let ?d = "\<lparr>shipTimerRng = 1, catchRng = 1, fishRng = 5, cellTimerRnd = 15,
        shipOffsetRngX = 0, shipOffsetRngY = 0\<rparr>"
  have tm: "timer_of 22 = 1"
    by (simp add: getbits_def SHIFT_defs MASK_2BIT_def)
  have po: "position_of 22 = 0"
    by (simp add: getbits_def SHIFT_defs MASK_34BIT_def)
  have fi: "fish_of 22 = 0"
    by (simp add: getbits_def SHIFT_defs MASK_14BIT_def)
  have c: "catch_fish ?d 1 (position_of 22) Map.empty timers
      = (1, 4, [0 \<mapsto> 4], timers[16 := timers ! 16 @ [0]])"
    unfolding po by (simp add: catch_fish_def consume_def)
  show ?thesis
    unfolding fishing_step_fire [OF tm c] fi
    by (simp add: WIN_FISH_COUNT_def after_catch_def RESTLESS_def GREEDY_def LAZY_def
        FLOATING_def setbits_def SHIFT_defs MASK_2BIT_def MASK_4BIT_def MASK_14BIT_def)
qed


lemma floating_after_first_catch:
  "floating_step d 0x240000000000042 = 0x200000000100042"
  "floating_step d 0x200000000100042 = 0x60000003E900042"
  "floating_step d 0x60000003E900042 = 0xA0000007D100042"
  by (simp_all add: floating_step_def offsetX_of_def offsetY_of_def getbits_def setbits_def
      SHIFT_defs MASK_4BIT_def MASK_34BIT_def POSITION_BOUND_eq WIDTH_def)

text \<open>What the RESTLESS case does on a catch below the win count: the ship is FLOATING with
  x offset +1, and its y offset is the one it had. A ship that comes to FISHING through the
  FLOATING branch has both offsets 0, so for it the y offset after the catch is 0.\<close>

lemma restless_catch_offsets:
  assumes "i < length (ships s)"
    and "state_of (ships s ! i) = FISHING" and "timer_of (ships s ! i) = 1"
    and "type_of (ships s ! i) = RESTLESS"
    and "uint (fish_of (ships s ! i))
           + uint (fst (catch_fish d (tick s) (position_of (ships s ! i))
                          (activeCells s) (cellsTimers s))) < WIN_FISH_COUNT"
  shows "state_of (ships (update_ship d i s) ! i) = FLOATING"
    and "offsetX_of (ships (update_ship d i s) ! i) = 1"
    and "offsetY_of (ships (update_ship d i s) ! i) = offsetY_of (ships s ! i)"
proof -
  let ?ship = "ships s ! i"
  obtain fc cfc cells' timers' where
    c: "catch_fish d (tick s) (position_of ?ship) (activeCells s) (cellsTimers s)
          = (fc, cfc, cells', timers')"
    by (cases "catch_fish d (tick s) (position_of ?ship) (activeCells s) (cellsTimers s)")
  have lose: "\<not> WIN_FISH_COUNT \<le> uint (fish_of ?ship) + uint fc"
    using assms(5) c by simp
  define ship2 where "ship2 = setbits (setbits ?ship TIMER_SHIFT MASK_2BIT 0) FISH_SHIFT
      MASK_14BIT (word_of_int (min (uint (fish_of ?ship) + uint fc) WIN_FISH_COUNT))"
  have f: "fishing_step d (tick s) (type_of ?ship) ?ship (activeCells s) (cellsTimers s)
      = (after_catch d RESTLESS cfc ship2, cells', timers')"
    using fishing_step_fire [OF assms(3) c, of "type_of ?ship"] lose assms(4)
    by (simp add: Let_def ship2_def)
  have a: "after_catch d RESTLESS cfc ship2
      = setbits (setbits ship2 OFFSET_X_SHIFT MASK_4BIT (word_of_int 9)) STATE_SHIFT MASK_2BIT
          (ucast FLOATING)"
    by (simp add: after_catch_def RESTLESS_def GREEDY_def LAZY_def)
  have ship': "ships (update_ship d i s) ! i = after_catch d RESTLESS cfc ship2"
    using assms(1,2) f by (simp add: update_ship_fishing)
  show "state_of (ships (update_ship d i s) ! i) = FLOATING"
    unfolding ship' a by (rule state_store)
  show "offsetX_of (ships (update_ship d i s) ! i) = 1"
    unfolding ship' a using offsetX_of_setbits_X [of 9 ship2] by (simp add: offset_frame)
  show "offsetY_of (ships (update_ship d i s) ! i) = offsetY_of (ships s ! i)"
    unfolding ship' a by (simp add: offset_frame ship2_def)
qed

lemma floating_arrive_offsets:
  assumes "offsetX_of ship = 0" "offsetY_of ship = 0"
  shows "state_of (floating_step d ship) = FISHING"
    and "offsetX_of (floating_step d ship) = 0"
    and "offsetY_of (floating_step d ship) = 0"
  using assms
  by (simp_all add: floating_step_arrive offset_frame getbits_frame state_store)

text \<open>The first two steps of the main loop from the state in which every ship is drawn
  RESTLESS with timer 1 at position 0: the cells are processed, then ship 0 is updated.\<close>

lemma first_two_steps:
  "sim_step \<lparr>shipTimerRng = 1, catchRng = 1, fishRng = 5, cellTimerRnd = 15,
        shipOffsetRngX = 0, shipOffsetRngY = 0\<rparr> (sim_step \<lparr>shipTimerRng = 1, catchRng = 1, fishRng = 5, cellTimerRnd = 15,
        shipOffsetRngX = 0, shipOffsetRngY = 0\<rparr> (init_sim (replicate SHIP_COUNT \<lparr>initType = 2, initTimer = 1, initPosition = 0\<rparr>)))
     = \<lparr>activeCells = [0 \<mapsto> 4], cellsTimers = (replicate 30 [])[1 := [], 16 := [0]],
        ships = (replicate SHIP_COUNT 22)[0 := 0x240000000000042],
        activeShips = int SHIP_COUNT, tick = 1, pc = Some (Suc 0)\<rparr>"
proof -
  let ?ini = "\<lparr>initType = 2, initTimer = 1, initPosition = 0\<rparr>"
  let ?d = "\<lparr>shipTimerRng = 1, catchRng = 1, fishRng = 5, cellTimerRnd = 15,
        shipOffsetRngX = 0, shipOffsetRngY = 0\<rparr>"
  have i: "init_ship ?ini = 22"
    by (simp add: init_ship_def SHIFT_defs FISHING_def)
  have ty: "type_of 22 = RESTLESS"
    by (simp add: MASK_2BIT_def RESTLESS_def)
  have st: "state_of 22 = FISHING"
    by (simp add: getbits_def SHIFT_defs MASK_2BIT_def FISHING_def)
  define s1 where "s1 = sim_step ?d (init_sim (replicate SHIP_COUNT ?ini))"
  have s1: "s1 = \<lparr>activeCells = Map.empty, cellsTimers = (replicate 30 [])[1 := []],
      ships = replicate SHIP_COUNT 22, activeShips = int SHIP_COUNT, tick = 1, pc = Some 0\<rparr>"
    unfolding s1_def
    by (simp add: sim_step_def init_sim_def i drain_expired_def erase_cells_def SHIP_COUNT_def)
  have len: "0 < length (ships s1)" and sh: "ships s1 ! 0 = 22"
    by (simp_all add: s1 SHIP_COUNT_def)
  have f: "fishing_step ?d (tick s1) (type_of (ships s1 ! 0)) (ships s1 ! 0) (activeCells s1)
      (cellsTimers s1)
      = (0x240000000000042, [0 \<mapsto> 4], (cellsTimers s1)[16 := cellsTimers s1 ! 16 @ [0]])"
    unfolding sh ty using restless_fishing_step [of "cellsTimers s1"] by (simp add: s1)
  have st1: "state_of (ships s1 ! 0) = FISHING"
    unfolding sh by (rule st)
  have pc1: "pc s1 = Some 0"
    by (simp add: s1)
  have u: "update_ship ?d 0 s1 = s1\<lparr>activeCells := [0 \<mapsto> 4],
      cellsTimers := (cellsTimers s1)[16 := cellsTimers s1 ! 16 @ [0]],
      ships := (ships s1)[0 := 0x240000000000042]\<rparr>"
    by (rule update_ship_fishing [OF len st1 f])
  have "sim_step ?d s1 = (update_ship ?d 0 s1)\<lparr>pc := Some (Suc 0)\<rparr>"
    using pc1 by (simp add: sim_step_def SHIP_COUNT_def)
  then show ?thesis
    unfolding s1_def [symmetric] u by (simp add: s1)
qed

text \<open>
  Claim C1 fails on the code. The ship is the one the initialisation makes from the draws
  RESTLESS, timer 1, position 0; all \<^verbatim>\<open>SHIP_COUNT\<close> ships are drawn alike. The first step
  of the main loop processes the cells, the second updates ship 0: its timer fires, it catches
  one fish, and the RESTLESS case writes the x offset only. The ship is FLOATING with x offset
  +1 and the y offset the initialisation left behind, which reads as -8. The next three
  updates of the ship move it from position 0 to 1, then to 1001, then to 2001: one cell to
  the right and then down the rows.
\<close>

theorem restless_first_cycle_keeps_y_offset:
  "valid_init \<lparr>initType = 2, initTimer = 1, initPosition = 0\<rparr> \<and> valid_draw \<lparr>shipTimerRng = 1, catchRng = 1, fishRng = 5, cellTimerRnd = 15,
        shipOffsetRngX = 0, shipOffsetRngY = 0\<rparr>
   \<and> type_of (init_ship \<lparr>initType = 2, initTimer = 1, initPosition = 0\<rparr>) = RESTLESS
   \<and> state_of (init_ship \<lparr>initType = 2, initTimer = 1, initPosition = 0\<rparr>) = FISHING
   \<and> ships (sim_step \<lparr>shipTimerRng = 1, catchRng = 1, fishRng = 5, cellTimerRnd = 15,
        shipOffsetRngX = 0, shipOffsetRngY = 0\<rparr> (sim_step \<lparr>shipTimerRng = 1, catchRng = 1, fishRng = 5, cellTimerRnd = 15,
        shipOffsetRngX = 0, shipOffsetRngY = 0\<rparr> (init_sim (replicate SHIP_COUNT \<lparr>initType = 2, initTimer = 1, initPosition = 0\<rparr>)))) ! 0
       = 0x240000000000042
   \<and> state_of 0x240000000000042 = FLOATING
   \<and> fish_of 0x240000000000042 = 1
   \<and> offsetX_of 0x240000000000042 = 1
   \<and> offsetY_of 0x240000000000042 = - 8
   \<and> position_of (floating_step \<lparr>shipTimerRng = 1, catchRng = 1, fishRng = 5, cellTimerRnd = 15,
        shipOffsetRngX = 0, shipOffsetRngY = 0\<rparr> 0x240000000000042) = 1
   \<and> position_of (floating_step \<lparr>shipTimerRng = 1, catchRng = 1, fishRng = 5, cellTimerRnd = 15,
        shipOffsetRngX = 0, shipOffsetRngY = 0\<rparr> (floating_step \<lparr>shipTimerRng = 1, catchRng = 1, fishRng = 5, cellTimerRnd = 15,
        shipOffsetRngX = 0, shipOffsetRngY = 0\<rparr> 0x240000000000042)) = 1001
   \<and> position_of (floating_step \<lparr>shipTimerRng = 1, catchRng = 1, fishRng = 5, cellTimerRnd = 15,
        shipOffsetRngX = 0, shipOffsetRngY = 0\<rparr> (floating_step \<lparr>shipTimerRng = 1, catchRng = 1, fishRng = 5, cellTimerRnd = 15,
        shipOffsetRngX = 0, shipOffsetRngY = 0\<rparr> (floating_step \<lparr>shipTimerRng = 1, catchRng = 1, fishRng = 5, cellTimerRnd = 15,
        shipOffsetRngX = 0, shipOffsetRngY = 0\<rparr> 0x240000000000042)))
       = 2001"
proof -
  let ?ini = "\<lparr>initType = 2, initTimer = 1, initPosition = 0\<rparr>"
  let ?d = "\<lparr>shipTimerRng = 1, catchRng = 1, fishRng = 5, cellTimerRnd = 15,
        shipOffsetRngX = 0, shipOffsetRngY = 0\<rparr>"
  have i: "init_ship ?ini = 22"
    by (simp add: init_ship_def SHIFT_defs FISHING_def)
  have v0: "valid_init ?ini"
    by (simp add: valid_init_def POSITION_BOUND_eq)
  have v: "valid_draw ?d"
    by (simp add: valid_draw_def)
  have ty: "type_of 22 = RESTLESS"
    by (simp add: MASK_2BIT_def RESTLESS_def)
  have st: "state_of 22 = FISHING"
    by (simp add: getbits_def SHIFT_defs MASK_2BIT_def FISHING_def)
  have "state_of 0x240000000000042 = FLOATING"
    by (simp add: getbits_def SHIFT_defs MASK_2BIT_def FLOATING_def)
  moreover have "fish_of 0x240000000000042 = 1"
    by (simp add: getbits_def SHIFT_defs MASK_14BIT_def)
  moreover have "offsetX_of 0x240000000000042 = 1"
    by (simp add: offsetX_of_def getbits_def SHIFT_defs MASK_4BIT_def)
  moreover have "offsetY_of 0x240000000000042 = - 8"
    by (simp add: offsetY_of_def getbits_def SHIFT_defs MASK_4BIT_def)
  moreover have "position_of 0x200000000100042 = 1" "position_of 0x60000003E900042 = 1001"
    "position_of 0xA0000007D100042 = 2001"
    by (simp_all add: getbits_def SHIFT_defs MASK_34BIT_def)
  moreover have "0 < SHIP_COUNT"
    by (simp add: SHIP_COUNT_def)
  ultimately show ?thesis
    using v0 v ty st
    by (simp add: i first_two_steps floating_after_first_catch)
qed

section \<open>The ring buffer and the cell map\<close>

lemma dom_erase_cells: "dom (erase_cells m xs) = dom m - set xs"
  unfolding erase_cells_def
  by (induction xs arbitrary: m) auto

lemma concat_list_update:
  assumes "i < length xss"
  shows "concat (xss[i := ys]) = concat (take i xss) @ ys @ concat (drop (Suc i) xss)"
    and "concat xss = concat (take i xss) @ xss ! i @ concat (drop (Suc i) xss)"
proof -
  show "concat (xss[i := ys]) = concat (take i xss) @ ys @ concat (drop (Suc i) xss)"
    using assms by (simp add: upd_conv_take_nth_drop)
  have "concat xss = concat (take i xss @ xss ! i # drop (Suc i) xss)"
    using assms by (simp add: id_take_nth_drop [symmetric])
  then show "concat xss = concat (take i xss) @ xss ! i @ concat (drop (Suc i) xss)"
    by simp
qed

lemma clear_slot:
  assumes "distinct (concat xss)" "i < length xss"
  shows "distinct (concat (xss[i := []]))"
    and "set (concat (xss[i := []])) = set (concat xss) - set (xss ! i)"
proof -
  note c = concat_list_update [OF assms(2)]
  have d: "distinct (concat (take i xss) @ xss ! i @ concat (drop (Suc i) xss))"
    using assms(1) c(2) by simp
  then show "distinct (concat (xss[i := []]))"
    unfolding c(1) by auto
  have "set (concat xss)
      = set (concat (take i xss)) \<union> set (xss ! i) \<union> set (concat (drop (Suc i) xss))"
    using arg_cong [OF c(2), of set] by (simp add: Un_assoc)
  with d show "set (concat (xss[i := []])) = set (concat xss) - set (xss ! i)"
    unfolding c(1) by auto
qed

lemma push_slot:
  assumes "distinct (concat xss)" "i < length xss" "c \<notin> set (concat xss)"
  shows "distinct (concat (xss[i := xss ! i @ [c]]))"
    and "set (concat (xss[i := xss ! i @ [c]])) = insert c (set (concat xss))"
proof -
  note u = concat_list_update [OF assms(2)]
  have d: "distinct (concat (take i xss) @ xss ! i @ concat (drop (Suc i) xss))"
    using assms(1) u(2) by simp
  have n: "c \<notin> set (concat (take i xss) @ xss ! i @ concat (drop (Suc i) xss))"
    using assms(3) u(2) by simp
  from d n show "distinct (concat (xss[i := xss ! i @ [c]]))"
    unfolding u(1) by auto
  have "set (concat xss)
      = set (concat (take i xss)) \<union> set (xss ! i) \<union> set (concat (drop (Suc i) xss))"
    using arg_cong [OF u(2), of set] by (simp add: Un_assoc)
  then show "set (concat (xss[i := xss ! i @ [c]])) = insert c (set (concat xss))"
    unfolding u(1) by auto
qed

lemma scheduled_once_drain:
  assumes "scheduled_once (activeCells s) (cellsTimers s)"
  shows "scheduled_once (activeCells (drain_expired s)) (cellsTimers (drain_expired s))"
proof -
  let ?i = "unat (tick s) mod 30"
  have i: "?i < length (cellsTimers s)"
    using assms by (simp add: scheduled_once_def)
  have d: "distinct (concat (cellsTimers s))"
    using assms by (simp add: scheduled_once_def)
  show ?thesis
    using assms clear_slot [OF d i]
    by (simp add: scheduled_once_def drain_expired_def Let_def dom_erase_cells)
qed

lemma scheduled_once_catch:
  assumes "scheduled_once cells timers"
    and "catch_fish d tk p cells timers = (fc, cfc, cells', timers')"
  shows "scheduled_once cells' timers'"
proof (cases "cells p")
  case None
  let ?i = "unat (tk + word_of_int (cellTimerRnd d)) mod 30"
  have i: "?i < length timers"
    using assms(1) by (simp add: scheduled_once_def)
  have d: "distinct (concat timers)"
    using assms(1) by (simp add: scheduled_once_def)
  have n: "p \<notin> set (concat timers)"
    using assms(1) None by (simp add: scheduled_once_def domIff)
  have "cells' = cells(p \<mapsto> cfc)" and "timers' = timers[?i := timers ! ?i @ [p]]"
    using assms(2) None by (auto simp add: catch_fish_def Let_def split: prod.splits)
  then show ?thesis
    using assms(1) push_slot [OF d i n] by (simp add: scheduled_once_def)
next
  case (Some v)
  then have "cells' = cells(p \<mapsto> cfc)" and "timers' = timers"
    using assms(2) by (auto simp add: catch_fish_def Let_def split: prod.splits)
  moreover have "insert p (dom cells) = dom cells"
    using Some by auto
  ultimately show ?thesis
    using assms(1) by (simp add: scheduled_once_def)
qed


lemma fishing_step_cells:
  assumes "fishing_step d tk ty ship cells timers = (ship', cells', timers')"
  shows "(cells' = cells \<and> timers' = timers)
       \<or> (\<exists>fc cfc. catch_fish d tk (position_of ship) cells timers = (fc, cfc, cells', timers'))"
proof (cases "timer_of ship = 1")
  case True
  obtain fc cfc cells1 timers1 where
    c: "catch_fish d tk (position_of ship) cells timers = (fc, cfc, cells1, timers1)"
    by (cases "catch_fish d tk (position_of ship) cells timers")
  from assms have "cells' = cells1" "timers' = timers1"
    unfolding fishing_step_fire [OF True c] by (auto simp add: Let_def split: if_splits)
  with c show ?thesis
    by blast
next
  case False
  from assms show ?thesis
    unfolding fishing_step_wait [OF False] by simp
qed

lemma scheduled_once_fishing:
  assumes "scheduled_once cells timers"
    and "fishing_step d tk ty ship cells timers = (ship', cells', timers')"
  shows "scheduled_once cells' timers'"
  using fishing_step_cells [OF assms(2)] assms(1) scheduled_once_catch by blast

text \<open>The four cases of the switch on the state.\<close>

lemma update_ship_cases:
  obtains (dead) "state_of (ships s ! i) = DEAD" "update_ship d i s = s"
  | (floating) "state_of (ships s ! i) = FLOATING"
      "update_ship d i s = s\<lparr>ships := (ships s)[i := floating_step d (ships s ! i)]\<rparr>"
  | (fishing) ship' cells' timers' where "state_of (ships s ! i) = FISHING"
      "fishing_step d (tick s) (type_of (ships s ! i)) (ships s ! i) (activeCells s)
         (cellsTimers s) = (ship', cells', timers')"
      "update_ship d i s =
         s\<lparr>activeCells := cells', cellsTimers := timers', ships := (ships s)[i := ship']\<rparr>"
  | (finishing) "state_of (ships s ! i) \<noteq> DEAD" "state_of (ships s ! i) \<noteq> FLOATING"
      "state_of (ships s ! i) \<noteq> FISHING"
      "update_ship d i s =
         s\<lparr>activeShips := snd (finishing_step (ships s ! i) (activeShips s)),
           ships := (ships s)[i := fst (finishing_step (ships s ! i) (activeShips s))]\<rparr>"
proof (cases "state_of (ships s ! i) = DEAD")
  case True
  then have "update_ship d i s = s"
    by (simp add: update_ship_def Let_def)
  with True show ?thesis
    by (rule dead)
next
  case nd: False
  show ?thesis
  proof (cases "state_of (ships s ! i) = FLOATING")
    case True
    with nd have "update_ship d i s = s\<lparr>ships := (ships s)[i := floating_step d (ships s ! i)]\<rparr>"
      by (simp add: update_ship_def Let_def)
    with True show ?thesis
      by (rule floating)
  next
    case nf: False
    show ?thesis
    proof (cases "state_of (ships s ! i) = FISHING")
      case True
      obtain ship' cells' timers' where
        f: "fishing_step d (tick s) (type_of (ships s ! i)) (ships s ! i) (activeCells s)
              (cellsTimers s) = (ship', cells', timers')"
        by (cases "fishing_step d (tick s) (type_of (ships s ! i)) (ships s ! i)
              (activeCells s) (cellsTimers s)")
      with nd nf True have "update_ship d i s =
          s\<lparr>activeCells := cells', cellsTimers := timers', ships := (ships s)[i := ship']\<rparr>"
        by (simp add: update_ship_def Let_def)
      with True f show ?thesis
        by (rule fishing)
    next
      case False
      with nd nf have "update_ship d i s =
          s\<lparr>activeShips := snd (finishing_step (ships s ! i) (activeShips s)),
            ships := (ships s)[i := fst (finishing_step (ships s ! i) (activeShips s))]\<rparr>"
        by (simp add: update_ship_def Let_def split: prod.split)
      with nd nf False show ?thesis
        by (rule finishing)
    qed
  qed
qed

lemma scheduled_once_update_ship:
  assumes "scheduled_once (activeCells s) (cellsTimers s)"
  shows "scheduled_once (activeCells (update_ship d i s)) (cellsTimers (update_ship d i s))"
proof (cases rule: update_ship_cases [of s i d])
  case (fishing ship' cells' timers')
  with scheduled_once_fishing [OF assms fishing(2)] show ?thesis
    by simp
qed (use assms in simp_all)

lemma scheduled_once_sim_step:
  assumes "scheduled_once (activeCells s) (cellsTimers s)"
  shows "scheduled_once (activeCells (sim_step d s)) (cellsTimers (sim_step d s))"
  using assms scheduled_once_drain [OF assms] scheduled_once_update_ship [OF assms]
  by (simp add: sim_step_def split: option.split)

lemma scheduled_once_init: "scheduled_once (activeCells (init_sim ds)) (cellsTimers (init_sim ds))"
  by (simp add: scheduled_once_def init_sim_def)

lemma reachable_scheduled_once:
  assumes "reachable s"
  shows "scheduled_once (activeCells s) (cellsTimers s)"
  using assms
proof (induction rule: reachable.induct)
  case (init ds)
  show ?case
    by (rule scheduled_once_init)
next
  case (step s d)
  then show ?case
    by (simp add: scheduled_once_sim_step)
qed


lemma distinct_count_list_le: "distinct xs \<Longrightarrow> count_list xs x \<le> 1"
  by (induction xs) auto

lemma present_cell_not_rescheduled:
  assumes "position_of (ships s ! i) \<in> dom (activeCells s)"
  shows "cellsTimers (update_ship d i s) = cellsTimers s"
proof (cases rule: update_ship_cases [of s i d])
  case (fishing ship' cells' timers')
  from fishing_step_cells [OF fishing(2)] have "timers' = cellsTimers s"
  proof
    assume "cells' = activeCells s \<and> timers' = cellsTimers s"
    then show ?thesis ..
  next
    assume "\<exists>fc cfc. catch_fish d (tick s) (position_of (ships s ! i)) (activeCells s)
        (cellsTimers s) = (fc, cfc, cells', timers')"
    then show ?thesis
      using assms by (auto simp add: catch_fish_def Let_def split: prod.splits)
  qed
  with fishing(3) show ?thesis
    by simp
qed simp_all

text \<open>The two initial draws and the per-ship draw used to exhibit reachable states.\<close>

lemma example_draws_valid:
  "valid_init \<lparr>initType = 2, initTimer = 1, initPosition = 0\<rparr>"
  "valid_draw \<lparr>shipTimerRng = 1, catchRng = 1, fishRng = 5, cellTimerRnd = 15,
        shipOffsetRngX = 0, shipOffsetRngY = 0\<rparr>"
  by (simp_all add: valid_init_def valid_draw_def POSITION_BOUND_eq)

lemma example_reachable:
  "reachable (sim_step \<lparr>shipTimerRng = 1, catchRng = 1, fishRng = 5, cellTimerRnd = 15,
        shipOffsetRngX = 0, shipOffsetRngY = 0\<rparr> (sim_step \<lparr>shipTimerRng = 1, catchRng = 1, fishRng = 5, cellTimerRnd = 15,
        shipOffsetRngX = 0, shipOffsetRngY = 0\<rparr> (init_sim (replicate SHIP_COUNT \<lparr>initType = 2, initTimer = 1, initPosition = 0\<rparr>))))"
  by (intro reachable.step reachable.init) (simp_all add: example_draws_valid)

text \<open>
  Claim C6. In every state the simulation reaches, between any two steps of the main loop
  (also between the updates of two ships), the ring buffer has 30 slots, no cell index occurs
  more than once in all slots together, and the indexed cells are exactly the cells of the
  map. The update of a ship whose cell is in the map leaves the ring buffer as it is, so a
  cell is not scheduled again while its entry is outstanding.
\<close>

theorem cell_scheduled_at_most_once:
  assumes "reachable s"
  shows "length (cellsTimers s) = 30
       \<and> distinct (concat (cellsTimers s))
       \<and> (\<forall>c. count_list (concat (cellsTimers s)) c \<le> 1)
       \<and> set (concat (cellsTimers s)) = dom (activeCells s)
       \<and> (\<forall>d i. position_of (ships s ! i) \<in> dom (activeCells s) \<longrightarrow>
             cellsTimers (update_ship d i s) = cellsTimers s)"
proof -
  from assms have "scheduled_once (activeCells s) (cellsTimers s)"
    by (rule reachable_scheduled_once)
  then have "length (cellsTimers s) = 30" "distinct (concat (cellsTimers s))"
    "set (concat (cellsTimers s)) = dom (activeCells s)"
    by (simp_all add: scheduled_once_def)
  moreover from this(2) have "\<forall>c. count_list (concat (cellsTimers s)) c \<le> 1"
    by (blast intro: distinct_count_list_le)
  moreover have "\<forall>d i. position_of (ships s ! i) \<in> dom (activeCells s) \<longrightarrow>
      cellsTimers (update_ship d i s) = cellsTimers s"
    by (blast intro: present_cell_not_rescheduled)
  ultimately show ?thesis
    by blast
qed

theorem cell_scheduled_at_most_once_witness:
  "reachable (sim_step \<lparr>shipTimerRng = 1, catchRng = 1, fishRng = 5, cellTimerRnd = 15,
        shipOffsetRngX = 0, shipOffsetRngY = 0\<rparr> (sim_step \<lparr>shipTimerRng = 1, catchRng = 1, fishRng = 5, cellTimerRnd = 15,
        shipOffsetRngX = 0, shipOffsetRngY = 0\<rparr> (init_sim (replicate SHIP_COUNT \<lparr>initType = 2, initTimer = 1, initPosition = 0\<rparr>))))
   \<and> activeCells (sim_step \<lparr>shipTimerRng = 1, catchRng = 1, fishRng = 5, cellTimerRnd = 15,
        shipOffsetRngX = 0, shipOffsetRngY = 0\<rparr> (sim_step \<lparr>shipTimerRng = 1, catchRng = 1, fishRng = 5, cellTimerRnd = 15,
        shipOffsetRngX = 0, shipOffsetRngY = 0\<rparr> (init_sim (replicate SHIP_COUNT \<lparr>initType = 2, initTimer = 1, initPosition = 0\<rparr>)))) 0 = Some 4
   \<and> cellsTimers (sim_step \<lparr>shipTimerRng = 1, catchRng = 1, fishRng = 5, cellTimerRnd = 15,
        shipOffsetRngX = 0, shipOffsetRngY = 0\<rparr> (sim_step \<lparr>shipTimerRng = 1, catchRng = 1, fishRng = 5, cellTimerRnd = 15,
        shipOffsetRngX = 0, shipOffsetRngY = 0\<rparr> (init_sim (replicate SHIP_COUNT \<lparr>initType = 2, initTimer = 1, initPosition = 0\<rparr>)))) ! 16 = [0]
   \<and> distinct (concat (cellsTimers
         (sim_step \<lparr>shipTimerRng = 1, catchRng = 1, fishRng = 5, cellTimerRnd = 15,
        shipOffsetRngX = 0, shipOffsetRngY = 0\<rparr> (sim_step \<lparr>shipTimerRng = 1, catchRng = 1, fishRng = 5, cellTimerRnd = 15,
        shipOffsetRngX = 0, shipOffsetRngY = 0\<rparr> (init_sim (replicate SHIP_COUNT \<lparr>initType = 2, initTimer = 1, initPosition = 0\<rparr>))))))
   \<and> set (concat (cellsTimers
         (sim_step \<lparr>shipTimerRng = 1, catchRng = 1, fishRng = 5, cellTimerRnd = 15,
        shipOffsetRngX = 0, shipOffsetRngY = 0\<rparr> (sim_step \<lparr>shipTimerRng = 1, catchRng = 1, fishRng = 5, cellTimerRnd = 15,
        shipOffsetRngX = 0, shipOffsetRngY = 0\<rparr> (init_sim (replicate SHIP_COUNT \<lparr>initType = 2, initTimer = 1, initPosition = 0\<rparr>))))))
       = dom (activeCells (sim_step \<lparr>shipTimerRng = 1, catchRng = 1, fishRng = 5, cellTimerRnd = 15,
        shipOffsetRngX = 0, shipOffsetRngY = 0\<rparr> (sim_step \<lparr>shipTimerRng = 1, catchRng = 1, fishRng = 5, cellTimerRnd = 15,
        shipOffsetRngX = 0, shipOffsetRngY = 0\<rparr> (init_sim (replicate SHIP_COUNT \<lparr>initType = 2, initTimer = 1, initPosition = 0\<rparr>)))))"
  using cell_scheduled_at_most_once [OF example_reachable] example_reachable
  by (simp add: first_two_steps)

section \<open>The fish count and the position of every ship\<close>

lemma fish_store:
  assumes "0 \<le> k" "k \<le> WIN_FISH_COUNT"
  shows "uint (fish_of (setbits ship FISH_SHIFT MASK_14BIT (word_of_int k))) = k"
proof -
  have "k < 2 ^ 14"
    using assms(2) by (simp add: WIN_FISH_COUNT_def)
  then have "take_bit 14 k = k" "k < 2 ^ 64"
    using assms(1) by (simp_all add: take_bit_int_eq_self)
  then show ?thesis
    unfolding getbits_same unfolding MASK_14BIT_mask using assms(1)
    by (simp add: and_mask_wi uint_word_of_int)
qed

lemma floating_step_fish: "fish_of (floating_step d ship) = fish_of ship"
  by (simp add: floating_step_def Let_def getbits_frame)

lemma floating_step_position:
  assumes "position_of ship \<le> POSITION_BOUND"
  shows "position_of (floating_step d ship) \<le> POSITION_BOUND"
proof -
  consider "offsetX_of ship = 0" "offsetY_of ship = 0" | "0 < offsetX_of ship"
    | "offsetX_of ship < 0" | "offsetX_of ship = 0" "0 < offsetY_of ship"
    | "offsetX_of ship = 0" "offsetY_of ship < 0"
    by linarith
  then show ?thesis
  proof cases
    case 1
    then show ?thesis
      using assms by (simp add: floating_step_arrive getbits_frame)
  next
    case 2
    then show ?thesis
      using step_right(1) [OF assms] by (simp add: floating_step_right position_store)
  next
    case 3
    then show ?thesis
      using step_left(1) [OF assms] by (simp add: floating_step_left position_store)
  next
    case 4
    then show ?thesis
      using step_up(1) [OF assms] by (simp add: floating_step_up position_store)
  next
    case 5
    then show ?thesis
      using step_down(1) [OF assms] by (simp add: floating_step_down position_store)
  qed
qed

lemma after_catch_frame:
  "fish_of (after_catch d ty cfc ship) = fish_of ship"
  "position_of (after_catch d ty cfc ship) = position_of ship"
  by (simp_all add: after_catch_def Let_def getbits_frame)

lemma fishing_step_ok:
  assumes "ship_ok ship"
    and "fishing_step d tk ty ship cells timers = (ship', cells', timers')"
  shows "ship_ok ship'" and "uint (fish_of ship) \<le> uint (fish_of ship')"
proof -
  have "ship_ok ship' \<and> uint (fish_of ship) \<le> uint (fish_of ship')"
  proof (cases "timer_of ship = 1")
    case True
    obtain fc cfc cells1 timers1 where
      c: "catch_fish d tk (position_of ship) cells timers = (fc, cfc, cells1, timers1)"
      by (cases "catch_fish d tk (position_of ship) cells timers")
    define k where "k = min (uint (fish_of ship) + uint fc) WIN_FISH_COUNT"
    define ship2 where "ship2 = setbits (setbits ship TIMER_SHIFT MASK_2BIT 0)
        FISH_SHIFT MASK_14BIT (word_of_int k)"
    have k: "0 \<le> k" "k \<le> WIN_FISH_COUNT" "uint (fish_of ship) \<le> k"
      using assms(1) by (simp_all add: k_def ship_ok_def WIN_FISH_COUNT_def)
    have f2: "uint (fish_of ship2) = k"
      unfolding ship2_def using k(1,2) by (rule fish_store)
    have p2: "position_of ship2 = position_of ship"
      by (simp add: ship2_def getbits_frame)
    from assms(2) have "ship' = setbits ship2 STATE_SHIFT MASK_2BIT (ucast FINISHING)
        \<or> ship' = after_catch d ty cfc ship2"
      unfolding fishing_step_fire [OF True c]
      by (auto simp add: Let_def ship2_def k_def split: if_splits)
    then have "fish_of ship' = fish_of ship2 \<and> position_of ship' = position_of ship2"
      by (auto simp add: getbits_frame after_catch_frame)
    then show ?thesis
      using f2 p2 k assms(1) by (simp add: ship_ok_def)
  next
    case False
    from assms(2) have "ship' = setbits ship TIMER_SHIFT MASK_2BIT
        (ucast ((ucast (timer_of ship) :: 8 word) - 1))"
      unfolding fishing_step_wait [OF False] by simp
    then show ?thesis
      using assms(1) by (simp add: ship_ok_def getbits_frame)
  qed
  then show "ship_ok ship'" and "uint (fish_of ship) \<le> uint (fish_of ship')"
    by simp_all
qed

lemma finishing_step_fish: "fish_of (fst (finishing_step ship n)) = fish_of ship"
  by (simp add: finishing_step_def Let_def getbits_frame)

lemma finishing_step_position:
  assumes "position_of ship \<le> POSITION_BOUND"
  shows "position_of (fst (finishing_step ship n)) \<le> POSITION_BOUND"
proof (cases "unat (position_of ship) mod unat WIDTH = unat WIDTH - 1")
  case True
  then have "finishing_step ship n = (setbits ship STATE_SHIFT MASK_2BIT (ucast DEAD), n - 1)"
    unfolding finishing_step_def Let_def distanceLeft_zero by simp
  then show ?thesis
    using assms by (simp add: getbits_frame)
next
  case False
  then have "finishing_step ship n
      = (setbits ship POSITION_SHIFT MASK_34BIT (position_of ship + 1), n)"
    unfolding finishing_step_def Let_def distanceLeft_zero by simp
  then show ?thesis
    using next_in_row(3) [OF assms False] by (simp add: position_store)
qed

text \<open>The update of ship \<open>i\<close> replaces at most the record at index \<open>i\<close>, by a record that is
  within the bounds again and has at least as many fish.\<close>

lemma update_ship_ships:
  obtains ship' where "ships (update_ship d i s) = (ships s)[i := ship']"
    and "ship_ok (ships s ! i) \<Longrightarrow> ship_ok ship'"
    and "ship_ok (ships s ! i) \<Longrightarrow> uint (fish_of (ships s ! i)) \<le> uint (fish_of ship')"
proof (cases rule: update_ship_cases [of s i d])
  case dead
  show ?thesis
    by (rule that [of "ships s ! i"]) (simp_all add: dead)
next
  case floating
  show ?thesis
    by (rule that [of "floating_step d (ships s ! i)"])
      (simp_all add: floating ship_ok_def floating_step_fish floating_step_position)
next
  case (fishing ship' cells' timers')
  show ?thesis
    by (rule that [of ship'])
      (simp_all add: fishing(3) fishing_step_ok [OF _ fishing(2)])
next
  case finishing
  show ?thesis
    by (rule that [of "fst (finishing_step (ships s ! i) (activeShips s))"])
      (simp_all add: finishing ship_ok_def finishing_step_fish finishing_step_position)
qed


lemma update_ship_inv:
  assumes "i < length (ships s)" "\<forall>ship \<in> set (ships s). ship_ok ship"
  shows "length (ships (update_ship d i s)) = length (ships s)"
    and "\<forall>ship \<in> set (ships (update_ship d i s)). ship_ok ship"
    and "uint (fish_of (ships s ! j)) \<le> uint (fish_of (ships (update_ship d i s) ! j))"
proof -
  have ok: "ship_ok (ships s ! i)"
    using assms by simp
  obtain ship' where u: "ships (update_ship d i s) = (ships s)[i := ship']"
    and ok': "ship_ok ship'"
    and mono: "uint (fish_of (ships s ! i)) \<le> uint (fish_of ship')"
    using update_ship_ships [of d i s] ok by blast
  show "length (ships (update_ship d i s)) = length (ships s)"
    by (simp add: u)
  show "\<forall>ship \<in> set (ships (update_ship d i s)). ship_ok ship"
    using assms(2) ok' set_update_subset_insert [of "ships s" i ship'] by (auto simp add: u)
  show "uint (fish_of (ships s ! j)) \<le> uint (fish_of (ships (update_ship d i s) ! j))"
    using assms(1) mono by (cases "j = i") (simp_all add: u)
qed

lemma sim_step_inv:
  assumes "length (ships s) = SHIP_COUNT" "\<forall>ship \<in> set (ships s). ship_ok ship"
  shows "length (ships (sim_step d s)) = SHIP_COUNT"
    and "\<forall>ship \<in> set (ships (sim_step d s)). ship_ok ship"
    and "uint (fish_of (ships s ! j)) \<le> uint (fish_of (ships (sim_step d s) ! j))"
proof -
  have "length (ships (sim_step d s)) = SHIP_COUNT
      \<and> (\<forall>ship \<in> set (ships (sim_step d s)). ship_ok ship)
      \<and> uint (fish_of (ships s ! j)) \<le> uint (fish_of (ships (sim_step d s) ! j))"
  proof (cases "pc s")
    case None
    then show ?thesis
      using assms by (simp add: sim_step_def drain_expired_def Let_def)
  next
    case (Some i)
    show ?thesis
    proof (cases "i < SHIP_COUNT")
      case True
      then have i: "i < length (ships s)"
        using assms(1) by simp
      from update_ship_inv(1,2) [OF i assms(2), where d = d]
        update_ship_inv(3) [OF i assms(2), where d = d and j = j]
      show ?thesis
        using Some True assms(1) by (simp add: sim_step_def)
    next
      case False
      then show ?thesis
        using Some assms by (simp add: sim_step_def)
    qed
  qed
  then show "length (ships (sim_step d s)) = SHIP_COUNT"
    and "\<forall>ship \<in> set (ships (sim_step d s)). ship_ok ship"
    and "uint (fish_of (ships s ! j)) \<le> uint (fish_of (ships (sim_step d s) ! j))"
    by simp_all
qed

lemma init_ship_ok:
  assumes "valid_init d"
  shows "ship_ok (init_ship d)"
  using init_position_less(1) [OF assms]
  by (simp add: ship_ok_def init_ship_getbits [OF assms] WIN_FISH_COUNT_def)

text \<open>In every state the simulation reaches there are \<^verbatim>\<open>SHIP_COUNT\<close> ships, each with a fish
  count of at most the win count and a position on the grid.\<close>

lemma reachable_ships_ok:
  assumes "reachable s"
  shows "length (ships s) = SHIP_COUNT \<and> (\<forall>ship \<in> set (ships s). ship_ok ship)"
  using assms
proof (induction rule: reachable.induct)
  case (init ds)
  then show ?case
    by (simp add: init_sim_def init_ship_ok)
next
  case (step s d)
  then show ?case
    using sim_step_inv(1,2) [of s d] by blast
qed

lemma reachable_run:
  assumes "reachable s" "\<forall>d \<in> set ds. valid_draw d"
  shows "reachable (run ds s)"
  using assms unfolding run_def
  by (induction ds arbitrary: s) (simp_all add: reachable.step)

lemma run_fish_mono:
  assumes "reachable s" "\<forall>d \<in> set ds. valid_draw d"
  shows "uint (fish_of (ships s ! j)) \<le> uint (fish_of (ships (run ds s) ! j))"
  using assms
proof (induction ds arbitrary: s)
  case Nil
  show ?case
    by (simp add: run_def)
next
  case (Cons d ds)
  have r: "reachable (sim_step d s)"
    using Cons.prems by (simp add: reachable.step)
  have "uint (fish_of (ships s ! j)) \<le> uint (fish_of (ships (sim_step d s) ! j))"
    using reachable_ships_ok [OF Cons.prems(1)] sim_step_inv(3) by blast
  also have "\<dots> \<le> uint (fish_of (ships (run ds (sim_step d s)) ! j))"
    using Cons.IH [OF r] Cons.prems(2) by simp
  finally show ?case
    by (simp add: run_def)
qed

text \<open>
  Claim C7. In every state the simulation reaches, the fish count of every ship is at most
  \<^verbatim>\<open>WIN_FISH_COUNT\<close>; and after any number of further steps of the main loop, so also after a
  whole tick, the fish count of every ship is at least what it was and still at most
  \<^verbatim>\<open>WIN_FISH_COUNT\<close>.
\<close>

theorem fish_count_monotone_bounded:
  assumes "reachable s" and "\<forall>d \<in> set ds. valid_draw d"
  shows "(\<forall>ship \<in> set (ships s). uint (fish_of ship) \<le> WIN_FISH_COUNT)
       \<and> (\<forall>j < SHIP_COUNT.
             uint (fish_of (ships s ! j)) \<le> uint (fish_of (ships (run ds s) ! j))
           \<and> uint (fish_of (ships (run ds s) ! j)) \<le> WIN_FISH_COUNT)"
proof -
  have a: "\<forall>ship \<in> set (ships s). uint (fish_of ship) \<le> WIN_FISH_COUNT"
    using reachable_ships_ok [OF assms(1)] by (simp add: ship_ok_def)
  have r: "reachable (run ds s)"
    using assms by (rule reachable_run)
  have b: "uint (fish_of (ships (run ds s) ! j)) \<le> WIN_FISH_COUNT" if "j < SHIP_COUNT" for j
    using reachable_ships_ok [OF r] that by (simp add: ship_ok_def)
  show ?thesis
    using a b run_fish_mono [OF assms] by blast
qed

theorem fish_count_monotone_bounded_witness:
  "reachable (init_sim (replicate SHIP_COUNT \<lparr>initType = 2, initTimer = 1, initPosition = 0\<rparr>))
   \<and> valid_draw \<lparr>shipTimerRng = 1, catchRng = 1, fishRng = 5, cellTimerRnd = 15,
        shipOffsetRngX = 0, shipOffsetRngY = 0\<rparr>
   \<and> fish_of (ships (init_sim (replicate SHIP_COUNT \<lparr>initType = 2, initTimer = 1, initPosition = 0\<rparr>)) ! 0) = 0
   \<and> fish_of (ships (run [\<lparr>shipTimerRng = 1, catchRng = 1, fishRng = 5, cellTimerRnd = 15,
        shipOffsetRngX = 0, shipOffsetRngY = 0\<rparr>, \<lparr>shipTimerRng = 1, catchRng = 1, fishRng = 5, cellTimerRnd = 15,
        shipOffsetRngX = 0, shipOffsetRngY = 0\<rparr>] (init_sim (replicate SHIP_COUNT \<lparr>initType = 2, initTimer = 1, initPosition = 0\<rparr>))) ! 0) = 1
   \<and> uint (fish_of (ships (init_sim (replicate SHIP_COUNT \<lparr>initType = 2, initTimer = 1, initPosition = 0\<rparr>)) ! 0))
       \<le> uint (fish_of (ships (run [\<lparr>shipTimerRng = 1, catchRng = 1, fishRng = 5, cellTimerRnd = 15,
        shipOffsetRngX = 0, shipOffsetRngY = 0\<rparr>, \<lparr>shipTimerRng = 1, catchRng = 1, fishRng = 5, cellTimerRnd = 15,
        shipOffsetRngX = 0, shipOffsetRngY = 0\<rparr>] (init_sim (replicate SHIP_COUNT \<lparr>initType = 2, initTimer = 1, initPosition = 0\<rparr>))) ! 0))
   \<and> uint (fish_of (ships (run [\<lparr>shipTimerRng = 1, catchRng = 1, fishRng = 5, cellTimerRnd = 15,
        shipOffsetRngX = 0, shipOffsetRngY = 0\<rparr>, \<lparr>shipTimerRng = 1, catchRng = 1, fishRng = 5, cellTimerRnd = 15,
        shipOffsetRngX = 0, shipOffsetRngY = 0\<rparr>] (init_sim (replicate SHIP_COUNT \<lparr>initType = 2, initTimer = 1, initPosition = 0\<rparr>))) ! 0))
       \<le> WIN_FISH_COUNT"
proof -
  have r: "reachable (init_sim (replicate SHIP_COUNT \<lparr>initType = 2, initTimer = 1, initPosition = 0\<rparr>))"
    by (rule reachable.init) (simp_all add: example_draws_valid)
  have v: "\<forall>d \<in> set [\<lparr>shipTimerRng = 1, catchRng = 1, fishRng = 5, cellTimerRnd = 15,
        shipOffsetRngX = 0, shipOffsetRngY = 0\<rparr>, \<lparr>shipTimerRng = 1, catchRng = 1, fishRng = 5, cellTimerRnd = 15,
        shipOffsetRngX = 0, shipOffsetRngY = 0\<rparr>]. valid_draw d"
    by (simp add: example_draws_valid)
  have p: "0 < SHIP_COUNT"
    by (simp add: SHIP_COUNT_def)
  have i: "init_ship \<lparr>initType = 2, initTimer = 1, initPosition = 0\<rparr> = 22"
    by (simp add: init_ship_def SHIFT_defs FISHING_def)
  have f0: "fish_of (ships (init_sim (replicate SHIP_COUNT \<lparr>initType = 2, initTimer = 1, initPosition = 0\<rparr>)) ! 0) = 0"
    using p by (simp add: init_sim_def i getbits_def SHIFT_defs MASK_14BIT_def)
  have f1: "fish_of (ships (run [\<lparr>shipTimerRng = 1, catchRng = 1, fishRng = 5, cellTimerRnd = 15,
        shipOffsetRngX = 0, shipOffsetRngY = 0\<rparr>, \<lparr>shipTimerRng = 1, catchRng = 1, fishRng = 5, cellTimerRnd = 15,
        shipOffsetRngX = 0, shipOffsetRngY = 0\<rparr>] (init_sim (replicate SHIP_COUNT \<lparr>initType = 2, initTimer = 1, initPosition = 0\<rparr>))) ! 0) = 1"
    using p by (simp add: run_def first_two_steps getbits_def SHIFT_defs MASK_14BIT_def)
  show ?thesis
    using fish_count_monotone_bounded [OF r v] r p f0 f1
    by (simp add: WIN_FISH_COUNT_def example_draws_valid)
qed

section \<open>Expiry of a scheduled cell\<close>

lemma outstanding_present:
  assumes "outstanding p T due s"
  shows "p \<in> dom (activeCells s)"
proof -
  have "due mod 30 < length (cellsTimers s)"
    using assms by (simp add: outstanding_def scheduled_once_def)
  then have "cellsTimers s ! (due mod 30) \<in> set (cellsTimers s)"
    by (rule nth_mem)
  moreover have "p \<in> set (cellsTimers s ! (due mod 30))"
    using assms by (simp add: outstanding_def)
  ultimately have "p \<in> set (concat (cellsTimers s))"
    by auto
  moreover have "set (concat (cellsTimers s)) = dom (activeCells s)"
    using assms unfolding outstanding_def scheduled_once_def by blast
  ultimately show ?thesis
    by blast
qed

text \<open>The update of a ship does not change the tick and removes nothing from a slot.\<close>

lemma update_ship_tick: "tick (update_ship d i s) = tick s"
  by (cases rule: update_ship_cases [of s i d]) simp_all

lemma catch_fish_slot_grows:
  assumes "catch_fish d tk p cells timers = (fc, cfc, cells', timers')" "k < length timers"
  shows "set (timers ! k) \<subseteq> set (timers' ! k)"
proof (cases "cells p")
  case None
  let ?i = "unat (tk + word_of_int (cellTimerRnd d)) mod 30"
  have "timers' = timers[?i := timers ! ?i @ [p]]"
    using assms(1) None by (auto simp add: catch_fish_def Let_def split: prod.splits)
  then show ?thesis
    using assms(2) by (cases "k = ?i") auto
next
  case (Some v)
  then have "timers' = timers"
    using assms(1) by (auto simp add: catch_fish_def Let_def split: prod.splits)
  then show ?thesis
    by simp
qed

lemma update_ship_slot_grows:
  assumes "k < length (cellsTimers s)"
  shows "set (cellsTimers s ! k) \<subseteq> set (cellsTimers (update_ship d i s) ! k)"
proof (cases rule: update_ship_cases [of s i d])
  case (fishing ship' cells' timers')
  from fishing_step_cells [OF fishing(2)] have "set (cellsTimers s ! k) \<subseteq> set (timers' ! k)"
    using catch_fish_slot_grows assms by blast
  with fishing(3) show ?thesis
    by simp
qed simp_all

text \<open>The slot of a tick between \<open>T\<close> and \<open>due\<close> is not the slot of \<open>due\<close>, when the two
  ticks are at most 30 apart.\<close>

lemma other_slot:
  fixes T' due :: nat
  assumes "T' < due" "due < T' + 30"
  shows "T' mod 30 \<noteq> due mod 30"
proof
  assume "T' mod 30 = due mod 30"
  then have "due mod 30 = T' mod 30"
    by simp
  moreover have "T' \<le> due"
    using assms(1) by simp
  ultimately have "30 dvd due - T'"
    by (simp add: mod_eq_dvd_iff_nat)
  moreover have "0 < due - T'"
    using assms(1) by simp
  ultimately have "30 \<le> due - T'"
    by (rule dvd_imp_le)
  with assms(2) show False
    by simp
qed


text \<open>One step of the main loop keeps an entry outstanding, or it is the processing of the
  cells of the tick the entry is due at, which erases the cell.\<close>

lemma outstanding_step:
  assumes o: "outstanding p T due s" and due: "due \<le> T + 30" "due < 2 ^ 64"
  shows "outstanding p T due (sim_step d s)
       \<or> (unat (tick (sim_step d s)) = due \<and> pc (sim_step d s) = Some 0
          \<and> p \<notin> dom (activeCells (sim_step d s)))"
proof -
  have sch: "scheduled_once (activeCells s) (cellsTimers s)"
    and slot: "p \<in> set (cellsTimers s ! (due mod 30))"
    and T: "T \<le> unat (tick s)" "unat (tick s) = T \<longrightarrow> pc s \<noteq> None"
    and bd: "before_due due s"
    using o by (simp_all add: outstanding_def)
  have len: "length (cellsTimers s) = 30"
    using sch by (simp add: scheduled_once_def)
  show ?thesis
  proof (cases "pc s")
    case None
    show ?thesis
    proof (cases "0 < activeShips s")
      case False
      with None have "sim_step d s = s"
        by (simp add: sim_step_def)
      with o show ?thesis
        by simp
    next
      case True
      with None have st: "sim_step d s = (drain_expired s)\<lparr>pc := Some 0\<rparr>"
        by (simp add: sim_step_def)
      have tk: "tick (sim_step d s) = tick s" and pc': "pc (sim_step d s) = Some 0"
        by (simp_all add: st drain_expired_def Let_def)
      have T': "T < unat (tick s)"
        using T None by (cases "unat (tick s) = T") simp_all
      show ?thesis
      proof (cases "unat (tick s) = due")
        case True
        have "activeCells (sim_step d s)
            = erase_cells (activeCells s) (cellsTimers s ! (due mod 30))"
          by (simp add: st drain_expired_def Let_def True)
        then have "p \<notin> dom (activeCells (sim_step d s))"
          using slot by (simp add: dom_erase_cells)
        with True tk pc' show ?thesis
          by simp
      next
        case False
        with bd have lt: "unat (tick s) < due"
          by (simp add: before_due_def)
        have "due < unat (tick s) + 30"
          using T' due(1) by simp
        with lt have ne: "unat (tick s) mod 30 \<noteq> due mod 30"
          by (rule other_slot)
        have "cellsTimers (sim_step d s) = (cellsTimers s)[unat (tick s) mod 30 := []]"
          by (simp add: st drain_expired_def Let_def)
        then have "cellsTimers (sim_step d s) ! (due mod 30) = cellsTimers s ! (due mod 30)"
          using ne by simp
        moreover have "scheduled_once (activeCells (sim_step d s)) (cellsTimers (sim_step d s))"
          using sch by (rule scheduled_once_sim_step)
        ultimately have "outstanding p T due (sim_step d s)"
          using slot T' lt by (simp add: outstanding_def before_due_def tk pc')
        then show ?thesis ..
      qed
    qed
  next
    case (Some j)
    with bd have lt: "unat (tick s) < due"
      by (simp add: before_due_def)
    have sch': "scheduled_once (activeCells (sim_step d s)) (cellsTimers (sim_step d s))"
      using sch by (rule scheduled_once_sim_step)
    show ?thesis
    proof (cases "j < SHIP_COUNT")
      case True
      with Some have st: "sim_step d s = (update_ship d j s)\<lparr>pc := Some (Suc j)\<rparr>"
        by (simp add: sim_step_def)
      have tk: "tick (sim_step d s) = tick s" and pc': "pc (sim_step d s) = Some (Suc j)"
        by (simp_all add: st update_ship_tick)
      have "set (cellsTimers s ! (due mod 30)) \<subseteq> set (cellsTimers (sim_step d s) ! (due mod 30))"
        using update_ship_slot_grows [of "due mod 30" s d j] len by (simp add: st)
      with slot have "p \<in> set (cellsTimers (sim_step d s) ! (due mod 30))"
        by blast
      then have "outstanding p T due (sim_step d s)"
        using sch' T lt by (simp add: outstanding_def before_due_def tk pc')
      then show ?thesis ..
    next
      case False
      with Some have st: "sim_step d s = s\<lparr>tick := tick s + 1, pc := None\<rparr>"
        by (simp add: sim_step_def)
      have "unat (tick s) + 1 < 2 ^ 64"
        using lt due(2) by simp
      then have tk: "unat (tick (sim_step d s)) = unat (tick s) + 1"
        by (simp add: st unat_word_ariths)
      have "outstanding p T due (sim_step d s)"
        using sch' T lt slot unfolding outstanding_def before_due_def tk
        by (auto simp add: st)
      then show ?thesis ..
    qed
  qed
qed


lemma run_snoc: "run (ds @ [d]) s = sim_step d (run ds s)"
  by (simp add: run_def)

lemma outstanding_run:
  assumes "outstanding p T due s" and "due \<le> T + 30" and "due < 2 ^ 64"
    and "\<forall>n < length ds. before_due due (run (take n ds) s)"
  shows "outstanding p T due (run ds s)
       \<or> (unat (tick (run ds s)) = due \<and> pc (run ds s) = Some 0
          \<and> p \<notin> dom (activeCells (run ds s)))"
  using assms(4)
proof (induction ds rule: rev_induct)
  case Nil
  show ?case
    using assms(1) by (simp add: run_def)
next
  case (snoc d ds)
  have w: "\<forall>n < length ds. before_due due (run (take n ds) s)"
  proof (intro allI impI)
    fix n
    assume n: "n < length ds"
    then have "before_due due (run (take n (ds @ [d])) s)"
      using snoc.prems by simp
    with n show "before_due due (run (take n ds) s)"
      by simp
  qed
  have b: "before_due due (run ds s)"
    using snoc.prems [rule_format, of "length ds"] by simp
  from snoc.IH [OF w] b have "outstanding p T due (run ds s)"
    by (auto simp add: before_due_def)
  then show ?case
    unfolding run_snoc using assms(2,3) by (rule outstanding_step)
qed

lemma unat_tick_plus:
  fixes tk :: "64 word"
  assumes "0 \<le> c" "unat tk + nat c < 2 ^ 64"
  shows "unat (tk + word_of_int c) = unat tk + nat c"
proof -
  have "(word_of_int c :: 64 word) = of_nat (nat c)"
    using assms(1) by simp
  moreover have "nat c < 2 ^ 64"
    using assms(2) by simp
  ultimately have "unat (word_of_int c :: 64 word) = nat c"
    by (simp add: unat_of_nat)
  then show ?thesis
    using assms(2) by (simp add: unat_word_ariths)
qed

text \<open>The update that schedules: a FISHING ship whose timer fires on a cell that is not in
  the map.\<close>

lemma schedule_outstanding:
  assumes sch: "scheduled_once (activeCells s) (cellsTimers s)"
    and pc: "pc s = Some i" "i < SHIP_COUNT" "i < length (ships s)"
    and fishing: "state_of (ships s ! i) = FISHING" "timer_of (ships s ! i) = 1"
    and absent: "activeCells s (position_of (ships s ! i)) = None"
    and ttl: "15 \<le> cellTimerRnd d"
    and nowrap: "unat (tick s) + nat (cellTimerRnd d) < 2 ^ 64"
  defines "due \<equiv> unat (tick s) + nat (cellTimerRnd d)"
  shows "outstanding (position_of (ships s ! i)) (unat (tick s)) due (sim_step d s)"
    and "cellsTimers (sim_step d s)
        = (cellsTimers s)[due mod 30 := cellsTimers s ! (due mod 30) @ [position_of (ships s ! i)]]"
proof -
  let ?p = "position_of (ships s ! i)"
  let ?k = "unat (tick s + word_of_int (cellTimerRnd d)) mod 30"
  have k: "?k = due mod 30"
    using ttl nowrap by (simp add: due_def unat_tick_plus)
  obtain fc cfc cells1 timers1 where
    c: "catch_fish d (tick s) ?p (activeCells s) (cellsTimers s) = (fc, cfc, cells1, timers1)"
    by (cases "catch_fish d (tick s) ?p (activeCells s) (cellsTimers s)")
  have t1: "timers1 = (cellsTimers s)[?k := cellsTimers s ! ?k @ [?p]]"
    using c absent by (auto simp add: catch_fish_def Let_def split: prod.splits)
  have "\<exists>ship'. fishing_step d (tick s) (type_of (ships s ! i)) (ships s ! i)
      (activeCells s) (cellsTimers s) = (ship', cells1, timers1)"
    unfolding fishing_step_fire [OF fishing(2) c] Let_def by auto
  then obtain ship' where f: "fishing_step d (tick s) (type_of (ships s ! i)) (ships s ! i)
      (activeCells s) (cellsTimers s) = (ship', cells1, timers1)" ..
  have st: "sim_step d s = (update_ship d i s)\<lparr>pc := Some (Suc i)\<rparr>"
    using pc(1,2) by (simp add: sim_step_def)
  have u: "update_ship d i s
      = s\<lparr>activeCells := cells1, cellsTimers := timers1, ships := (ships s)[i := ship']\<rparr>"
    using pc(3) fishing(1) f by (rule update_ship_fishing)
  show ct: "cellsTimers (sim_step d s)
      = (cellsTimers s)[due mod 30 := cellsTimers s ! (due mod 30) @ [?p]]"
    by (simp add: st u t1 k)
  have len: "due mod 30 < length (cellsTimers s)"
    using sch by (simp add: scheduled_once_def)
  have "?p \<in> set (cellsTimers (sim_step d s) ! (due mod 30))"
    unfolding ct using len by simp
  moreover have "scheduled_once (activeCells (sim_step d s)) (cellsTimers (sim_step d s))"
    using sch by (rule scheduled_once_sim_step)
  moreover have "tick (sim_step d s) = tick s" "pc (sim_step d s) = Some (Suc i)"
    by (simp_all add: st u)
  moreover have "unat (tick s) < due"
    using ttl by (simp add: due_def)
  ultimately show "outstanding ?p (unat (tick s)) due (sim_step d s)"
    by (simp add: outstanding_def before_due_def)
qed

section \<open>Progress of the main loop\<close>

text \<open>A step of the loop body that is taken (the loop has not been left) moves the position
  in the loop by exactly one, as long as the tick counter does not overflow.\<close>

lemma sim_step_ship_pc:
  assumes "pc s = Some j" "j < SHIP_COUNT"
  shows "pc (sim_step d s) = Some (Suc j)" and "tick (sim_step d s) = tick s"
  using assms by (simp_all add: sim_step_def update_ship_tick)

lemma loop_position_step:
  assumes ok: "\<forall>j. pc s = Some j \<longrightarrow> j \<le> SHIP_COUNT"
    and alive: "pc s = None \<longrightarrow> 0 < activeShips s"
    and nowrap: "pc s = Some SHIP_COUNT \<longrightarrow> unat (tick s) + 1 < 2 ^ 64"
  shows "loop_position (sim_step d s) = loop_position s + 1"
    and "\<forall>j. pc (sim_step d s) = Some j \<longrightarrow> j \<le> SHIP_COUNT"
proof -
  have "loop_position (sim_step d s) = loop_position s + 1
      \<and> (\<forall>j. pc (sim_step d s) = Some j \<longrightarrow> j \<le> SHIP_COUNT)"
  proof (cases "pc s")
    case None
    with alive have "sim_step d s = (drain_expired s)\<lparr>pc := Some 0\<rparr>"
      by (simp add: sim_step_def)
    then have "tick (sim_step d s) = tick s" "pc (sim_step d s) = Some 0"
      by (simp_all add: drain_expired_def Let_def)
    with None show ?thesis
      by (simp add: loop_position_def)
  next
    case (Some j)
    show ?thesis
    proof (cases "j < SHIP_COUNT")
      case True
      from sim_step_ship_pc [OF Some True, of d] Some True show ?thesis
        by (simp add: loop_position_def)
    next
      case False
      with ok Some have j: "j = SHIP_COUNT"
        by simp
      with Some have st: "sim_step d s = s\<lparr>tick := tick s + 1, pc := None\<rparr>"
        by (simp add: sim_step_def)
      have "unat (tick s + 1) = unat (tick s) + 1"
        using nowrap Some j by (simp add: unat_word_ariths)
      then show ?thesis
        using Some j by (simp add: st loop_position_def)
    qed
  qed
  then show "loop_position (sim_step d s) = loop_position s + 1"
    and "\<forall>j. pc (sim_step d s) = Some j \<longrightarrow> j \<le> SHIP_COUNT"
    by simp_all
qed

text \<open>The states before the processing of the cells of tick \<open>due\<close> are those at a position of
  at most \<open>due\<close> ticks.\<close>

lemma before_due_position:
  assumes "\<forall>j. pc s = Some j \<longrightarrow> j \<le> SHIP_COUNT"
  shows "before_due due s \<longleftrightarrow> loop_position s \<le> due * (SHIP_COUNT + 2)"
proof (cases "pc s")
  case None
  have "unat (tick s) \<le> due \<longleftrightarrow> unat (tick s) * (SHIP_COUNT + 2) \<le> due * (SHIP_COUNT + 2)"
    unfolding mult_le_cancel2 by simp
  with None show ?thesis
    by (auto simp add: before_due_def loop_position_def)
next
  case (Some j)
  with assms have j: "j \<le> SHIP_COUNT"
    by simp
  show ?thesis
  proof (cases "unat (tick s) < due")
    case True
    then have "Suc (unat (tick s)) * (SHIP_COUNT + 2) \<le> due * (SHIP_COUNT + 2)"
      by (intro mult_le_mono1) simp
    then have "loop_position s \<le> due * (SHIP_COUNT + 2)"
      using j Some by (simp add: loop_position_def)
    with True show ?thesis
      by (simp add: before_due_def)
  next
    case False
    then have "due * (SHIP_COUNT + 2) \<le> unat (tick s) * (SHIP_COUNT + 2)"
      by (intro mult_le_mono1) simp
    then have "\<not> loop_position s \<le> due * (SHIP_COUNT + 2)"
      using Some by (simp add: loop_position_def)
    with False Some show ?thesis
      by (simp add: before_due_def)
  qed
qed

lemma before_due_tick:
  assumes "before_due due s" "pc s = Some j"
  shows "unat (tick s) < due"
  using assms by (simp add: before_due_def)

text \<open>A run of steps that are all taken, and that ends at most one step after the position of
  \<open>due\<close> ticks, advances the position by its length.\<close>

lemma loop_position_run:
  assumes "\<forall>j. pc s = Some j \<longrightarrow> j \<le> SHIP_COUNT"
    and "due < 2 ^ 64"
    and "loop_position s + length ds \<le> due * (SHIP_COUNT + 2) + 1"
    and "\<forall>n < length ds. pc (run (take n ds) s) = None \<longrightarrow> 0 < activeShips (run (take n ds) s)"
  shows "loop_position (run ds s) = loop_position s + length ds
       \<and> (\<forall>j. pc (run ds s) = Some j \<longrightarrow> j \<le> SHIP_COUNT)"
  using assms(3,4)
proof (induction ds rule: rev_induct)
  case Nil
  show ?case
    using assms(1) by (simp add: run_def)
next
  case (snoc d ds)
  have alive: "\<forall>n < length ds. pc (run (take n ds) s) = None
      \<longrightarrow> 0 < activeShips (run (take n ds) s)"
  proof (intro allI impI)
    fix n
    assume n: "n < length ds" and p: "pc (run (take n ds) s) = None"
    from n have "take n (ds @ [d]) = take n ds"
      by simp
    with snoc.prems(2) [rule_format, of n] n p show "0 < activeShips (run (take n ds) s)"
      by simp
  qed
  have le: "loop_position s + length ds \<le> due * (SHIP_COUNT + 2)"
    using snoc.prems(1) by simp
  then have ih: "loop_position (run ds s) = loop_position s + length ds"
    and ok: "\<forall>j. pc (run ds s) = Some j \<longrightarrow> j \<le> SHIP_COUNT"
    using snoc.IH alive by simp_all
  have b: "before_due due (run ds s)"
    using le ih by (simp add: before_due_position [OF ok])
  have a: "pc (run ds s) = None \<longrightarrow> 0 < activeShips (run ds s)"
    using snoc.prems(2) [rule_format, of "length ds"] by simp
  have w: "pc (run ds s) = Some SHIP_COUNT \<longrightarrow> unat (tick (run ds s)) + 1 < 2 ^ 64"
  proof
    assume "pc (run ds s) = Some SHIP_COUNT"
    with b have "unat (tick (run ds s)) < due"
      by (rule before_due_tick)
    with assms(2) show "unat (tick (run ds s)) + 1 < 2 ^ 64"
      by simp
  qed
  from loop_position_step [OF ok a w, of d] ih show ?case
    by (simp add: run_snoc)
qed


lemma take_take_less:
  assumes "m < length (take n es)"
  shows "take m (take n es) = take m es" and "m < length es"
proof -
  from assms have "m < n" "m < length es"
    by simp_all
  then show "take m (take n es) = take m es" and "m < length es"
    by (simp_all add: min_def)
qed

text \<open>An outstanding entry is erased: when all steps are taken, the run that ends one step
  after the position of \<open>due\<close> ticks has the cell in the map before each of its steps and
  ends right after the processing of the cells of tick \<open>due\<close>, with the cell erased.\<close>

lemma outstanding_expires:
  assumes o: "outstanding p T due s"
    and ok: "\<forall>j. pc s = Some j \<longrightarrow> j \<le> SHIP_COUNT"
    and d30: "due \<le> T + 30" and d64: "due < 2 ^ 64"
    and len: "loop_position s + length es = due * (SHIP_COUNT + 2) + 1"
    and alive: "\<forall>n < length es. pc (run (take n es) s) = None
                  \<longrightarrow> 0 < activeShips (run (take n es) s)"
  shows "\<forall>n < length es. before_due due (run (take n es) s)
           \<and> p \<in> dom (activeCells (run (take n es) s))"
    and "unat (tick (run es s)) = due \<and> pc (run es s) = Some 0
           \<and> p \<notin> dom (activeCells (run es s))"
proof -
  have pos: "loop_position (run (take n es) s) = loop_position s + n
      \<and> (\<forall>j. pc (run (take n es) s) = Some j \<longrightarrow> j \<le> SHIP_COUNT)"
    if n: "n \<le> length es" for n
  proof -
    have l: "length (take n es) = n"
      using n by simp
    have "loop_position s + length (take n es) \<le> due * (SHIP_COUNT + 2) + 1"
      using len n by simp
    moreover have "\<forall>m < length (take n es). pc (run (take m (take n es)) s) = None
        \<longrightarrow> 0 < activeShips (run (take m (take n es)) s)"
    proof (intro allI impI)
      fix m
      assume m: "m < length (take n es)" and p: "pc (run (take m (take n es)) s) = None"
      from m have e: "take m (take n es) = take m es" and "m < length es"
        by (rule take_take_less)+
      with alive p show "0 < activeShips (run (take m (take n es)) s)"
        by simp
    qed
    ultimately show ?thesis
      using loop_position_run [OF ok d64, of "take n es"] l by simp
  qed
  have before: "before_due due (run (take n es) s)" if n: "n < length es" for n
  proof -
    from n have "n \<le> length es"
      by simp
    from pos [OF this] have "loop_position (run (take n es) s) = loop_position s + n"
      and k: "\<forall>j. pc (run (take n es) s) = Some j \<longrightarrow> j \<le> SHIP_COUNT"
      by simp_all
    with len n have "loop_position (run (take n es) s) \<le> due * (SHIP_COUNT + 2)"
      by simp
    then show ?thesis
      by (simp add: before_due_position [OF k])
  qed
  have disj: "outstanding p T due (run (take n es) s)
      \<or> (unat (tick (run (take n es) s)) = due \<and> pc (run (take n es) s) = Some 0
         \<and> p \<notin> dom (activeCells (run (take n es) s)))"
    if n: "n \<le> length es" for n
  proof (rule outstanding_run [OF o d30 d64])
    show "\<forall>m < length (take n es). before_due due (run (take m (take n es)) s)"
    proof (intro allI impI)
      fix m
      assume m: "m < length (take n es)"
      then have "take m (take n es) = take m es" and "m < length es"
        by (rule take_take_less)+
      with before show "before_due due (run (take m (take n es)) s)"
        by simp
    qed
  qed
  show "\<forall>n < length es. before_due due (run (take n es) s)
      \<and> p \<in> dom (activeCells (run (take n es) s))"
  proof (intro allI impI)
    fix n
    assume n: "n < length es"
    then have b: "before_due due (run (take n es) s)"
      by (rule before)
    from n have "n \<le> length es"
      by simp
    from disj [OF this] b have "outstanding p T due (run (take n es) s)"
      by (auto simp add: before_due_def)
    with b show "before_due due (run (take n es) s)
        \<and> p \<in> dom (activeCells (run (take n es) s))"
      by (simp add: outstanding_present)
  qed
  have "loop_position (run es s) = due * (SHIP_COUNT + 2) + 1"
    and k: "\<forall>j. pc (run es s) = Some j \<longrightarrow> j \<le> SHIP_COUNT"
    using pos [of "length es"] len by simp_all
  then have "\<not> before_due due (run es s)"
    by (simp add: before_due_position [OF k])
  then have "\<not> outstanding p T due (run es s)"
    by (simp add: outstanding_def)
  with disj [of "length es"]
  show "unat (tick (run es s)) = due \<and> pc (run es s) = Some 0
      \<and> p \<notin> dom (activeCells (run es s))"
    by simp
qed

section \<open>Runs without a catch\<close>

text \<open>When every cell is drawn empty (\<^verbatim>\<open>fishRng\<close> gives 0), nothing is caught, no ship reaches
  the win count and the loop is never left.\<close>

lemma erase_cells_Some:
  assumes "erase_cells m xs c = Some v"
  shows "m c = Some v"
  using assms unfolding erase_cells_def
proof (induction xs arbitrary: m)
  case Nil
  then show ?case
    by simp
next
  case (Cons a xs)
  have "foldl (\<lambda>m cellIdx. m(cellIdx := None)) (m(a := None)) xs c = Some v"
    using Cons.prems by (simp only: foldl_Cons)
  then have "(m(a := None)) c = Some v"
    by (rule Cons.IH)
  then show ?case
    by (simp split: if_splits)
qed

lemma floating_step_state:
  assumes "state_of ship = FLOATING"
  shows "state_of (floating_step d ship) = FLOATING \<or> state_of (floating_step d ship) = FISHING"
proof -
  consider "offsetX_of ship = 0" "offsetY_of ship = 0" | "0 < offsetX_of ship"
    | "offsetX_of ship < 0" | "offsetX_of ship = 0" "0 < offsetY_of ship"
    | "offsetX_of ship = 0" "offsetY_of ship < 0"
    by linarith
  then show ?thesis
  proof cases
    case 1
    then show ?thesis
      by (simp add: floating_step_arrive getbits_frame state_store)
  next
    case 2
    then show ?thesis
      using assms by (simp add: floating_step_right getbits_frame)
  next
    case 3
    then show ?thesis
      using assms by (simp add: floating_step_left getbits_frame)
  next
    case 4
    then show ?thesis
      using assms by (simp add: floating_step_up getbits_frame)
  next
    case 5
    then show ?thesis
      using assms by (simp add: floating_step_down getbits_frame)
  qed
qed

lemma after_catch_state:
  "state_of (after_catch d ty cfc ship) = FLOATING
   \<or> state_of (after_catch d ty cfc ship) = state_of ship"
  by (simp add: after_catch_def Let_def getbits_frame state_store)

lemma consume_empty: "consume x 0 = (0, 0)"
  by (simp add: consume_min min_def)

lemma catch_fish_calm:
  assumes "\<forall>c v. cells c = Some v \<longrightarrow> v = 0" and "fishRng d = 0"
    and "catch_fish d tk p cells timers = (fc, cfc, cells', timers')"
  shows "fc = 0" and "\<forall>c v. cells' c = Some v \<longrightarrow> v = 0"
proof -
  have "fc = 0 \<and> cells' = cells(p \<mapsto> 0)"
  proof (cases "cells p")
    case None
    with assms(2,3) show ?thesis
      by (simp add: catch_fish_def Let_def consume_empty)
  next
    case (Some v)
    with assms(1) have "v = 0"
      by simp
    with Some assms(3) show ?thesis
      by (simp add: catch_fish_def Let_def consume_empty)
  qed
  then show "fc = 0" and "\<forall>c v. cells' c = Some v \<longrightarrow> v = 0"
    using assms(1) by simp_all
qed

lemma fishing_step_calm:
  assumes "\<forall>c v. cells c = Some v \<longrightarrow> v = 0" and "fishRng d = 0"
    and "fish_of ship = 0" and "state_of ship = FISHING"
    and "fishing_step d tk ty ship cells timers = (ship', cells', timers')"
  shows "fish_of ship' = 0"
    and "state_of ship' = FLOATING \<or> state_of ship' = FISHING"
    and "\<forall>c v. cells' c = Some v \<longrightarrow> v = 0"
proof -
  have "fish_of ship' = 0 \<and> (state_of ship' = FLOATING \<or> state_of ship' = FISHING)
      \<and> (\<forall>c v. cells' c = Some v \<longrightarrow> v = 0)"
  proof (cases "timer_of ship = 1")
    case True
    obtain fc cfc cells1 timers1 where
      c: "catch_fish d tk (position_of ship) cells timers = (fc, cfc, cells1, timers1)"
      by (cases "catch_fish d tk (position_of ship) cells timers")
    note calm = catch_fish_calm [OF assms(1,2) c]
    define ship2 where "ship2 = setbits (setbits ship TIMER_SHIFT MASK_2BIT 0)
        FISH_SHIFT MASK_14BIT (word_of_int 0)"
    have f2: "fish_of ship2 = 0"
      unfolding ship2_def getbits_same by simp
    have s2: "state_of ship2 = FISHING"
      using assms(4) by (simp add: ship2_def getbits_frame)
    from assms(5) have "ship' = after_catch d ty cfc ship2" and "cells' = cells1"
      unfolding fishing_step_fire [OF True c]
      by (simp_all add: Let_def calm(1) assms(3) WIN_FISH_COUNT_def ship2_def)
    then show ?thesis
      using f2 s2 calm(2) after_catch_state [of d ty cfc ship2]
      by (auto simp add: after_catch_frame)
  next
    case False
    from assms(5) have "ship' = setbits ship TIMER_SHIFT MASK_2BIT
        (ucast ((ucast (timer_of ship) :: 8 word) - 1))" and "cells' = cells"
      unfolding fishing_step_wait [OF False] by simp_all
    then show ?thesis
      using assms(1,3,4) by (simp add: getbits_frame)
  qed
  then show "fish_of ship' = 0"
    and "state_of ship' = FLOATING \<or> state_of ship' = FISHING"
    and "\<forall>c v. cells' c = Some v \<longrightarrow> v = 0"
    by simp_all
qed

lemma calm_update:
  assumes "\<forall>ship \<in> set xs. fish_of ship = 0
      \<and> (state_of ship = FLOATING \<or> state_of ship = FISHING)"
    and "fish_of x = 0" and "state_of x = FLOATING \<or> state_of x = FISHING"
  shows "\<forall>ship \<in> set (xs[i := x]). fish_of ship = 0
      \<and> (state_of ship = FLOATING \<or> state_of ship = FISHING)"
  using assms set_update_subset_insert [of xs i x] by blast

lemma update_ship_calm:
  assumes "calm s" and "i < SHIP_COUNT" and "fishRng d = 0"
  shows "calm (update_ship d i s)"
proof -
  have cells: "\<forall>c v. activeCells s c = Some v \<longrightarrow> v = 0"
    and len: "length (ships s) = SHIP_COUNT"
    and all: "\<forall>ship \<in> set (ships s). fish_of ship = 0
        \<and> (state_of ship = FLOATING \<or> state_of ship = FISHING)"
    and act: "activeShips s = int SHIP_COUNT"
    using assms(1) by (simp_all add: calm_def)
  have "ships s ! i \<in> set (ships s)"
    using assms(2) len by simp
  with all have fi: "fish_of (ships s ! i) = 0"
    and st: "state_of (ships s ! i) = FLOATING \<or> state_of (ships s ! i) = FISHING"
    by blast+
  show ?thesis
  proof (cases rule: update_ship_cases [of s i d])
    case dead
    with assms(1) show ?thesis
      by simp
  next
    case floating
    have "\<forall>ship \<in> set ((ships s)[i := floating_step d (ships s ! i)]). fish_of ship = 0
        \<and> (state_of ship = FLOATING \<or> state_of ship = FISHING)"
      using all floating_step_state [OF floating(1)] fi
      by (intro calm_update) (simp_all add: floating_step_fish)
    then show ?thesis
      using cells len act by (simp add: calm_def floating(2))
  next
    case (fishing ship' cells' timers')
    note f = fishing_step_calm [OF cells assms(3) fi fishing(1,2)]
    have "\<forall>ship \<in> set ((ships s)[i := ship']). fish_of ship = 0
        \<and> (state_of ship = FLOATING \<or> state_of ship = FISHING)"
      using all f(1,2) by (rule calm_update)
    then show ?thesis
      using f(3) len act by (simp add: calm_def fishing(3))
  next
    case finishing
    with st show ?thesis
      by simp
  qed
qed

lemma sim_step_calm:
  assumes "calm s" and "fishRng d = 0"
  shows "calm (sim_step d s)"
proof (cases "pc s")
  case None
  have "calm ((drain_expired s)\<lparr>pc := Some 0\<rparr>)"
    using assms(1) by (auto simp add: calm_def drain_expired_def Let_def dest: erase_cells_Some)
  with None assms(1) show ?thesis
    by (simp add: sim_step_def)
next
  case (Some i)
  show ?thesis
  proof (cases "i < SHIP_COUNT")
    case True
    from update_ship_calm [OF assms(1) True assms(2)] have "calm ((update_ship d i s)\<lparr>pc := Some (Suc i)\<rparr>)"
      by (simp add: calm_def)
    with Some True show ?thesis
      by (simp add: sim_step_def)
  next
    case False
    with Some assms(1) show ?thesis
      by (simp add: sim_step_def calm_def)
  qed
qed

lemma run_calm:
  assumes "calm s" and "\<forall>d \<in> set ds. fishRng d = 0"
  shows "calm (run ds s)"
  using assms unfolding run_def
  by (induction ds arbitrary: s) (simp_all add: sim_step_calm)

lemma calm_init:
  assumes "length ds = SHIP_COUNT" and "\<forall>d \<in> set ds. valid_init d"
  shows "calm (init_sim ds)"
  using assms
  by (auto simp add: calm_def init_sim_def init_ship_getbits FISHING_def)

lemma calm_alive: "calm s \<Longrightarrow> 0 < activeShips s"
  by (simp add: calm_def SHIP_COUNT_def)

section \<open>A scheduled cell is erased at its tick\<close>

text \<open>
  Claim C5. Let the simulation be about to update ship \<open>i\<close>, which is FISHING with its timer
  firing on a cell \<open>p\<close> that is not in the map, during tick \<open>T\<close>, and let the TTL drawn be
  \<open>t\<close> with \<open>15 \<le> t \<le> 30\<close>, where \<open>T + t\<close> does not overflow the 64-bit tick counter.
  \<^item> The update pushes \<open>p\<close> to the back of slot \<open>(T + t) mod 30\<close>.
  \<^item> Follow the simulation from there for any number of steps, as long as every state a step
    is taken from is before the processing of the cells of tick \<open>T + t\<close>. The state reached
    either is still before that processing, and \<open>p\<close> is in the map; or it is the state right
    after the cells of tick \<open>T + t\<close> were processed, and \<open>p\<close> is not in the map.
  \<^item> That processing is reached: as long as the loop is not left (\<^verbatim>\<open>activeShips\<close> is
    positive whenever the loop condition is tested), exactly \<open>t * (SHIP_COUNT + 2) - i - 1\<close>
    steps after the update the tick counter is \<open>T + t\<close>, the cells of that tick have just been
    processed and \<open>p\<close> is not in the map, while before each of these steps \<open>p\<close> is in the map.
  So the cell is erased when tick \<open>T + t\<close> is processed and at no step before.
\<close>

theorem expiry_at_due_tick:
  fixes s :: sim and d :: draw and ds es :: "draw list" and i :: nat
  assumes "reachable s"
    and "pc s = Some i" and "i < SHIP_COUNT"
    and "state_of (ships s ! i) = FISHING" and "timer_of (ships s ! i) = 1"
    and "activeCells s (position_of (ships s ! i)) = None"
    and "15 \<le> cellTimerRnd d" and "cellTimerRnd d \<le> 30"
    and "unat (tick s) + nat (cellTimerRnd d) < 2 ^ 64"
  defines "p \<equiv> position_of (ships s ! i)"
    and "due \<equiv> unat (tick s) + nat (cellTimerRnd d)"
    and "s1 \<equiv> sim_step d s"
  shows "cellsTimers s1 = (cellsTimers s)[due mod 30 := cellsTimers s ! (due mod 30) @ [p]]
       \<and> ((\<forall>n < length ds. before_due due (run (take n ds) s1)) \<longrightarrow>
            (before_due due (run ds s1) \<longrightarrow> p \<in> dom (activeCells (run ds s1)))
          \<and> (\<not> before_due due (run ds s1) \<longrightarrow>
                unat (tick (run ds s1)) = due \<and> pc (run ds s1) = Some 0
              \<and> p \<notin> dom (activeCells (run ds s1))))
       \<and> (length es = nat (cellTimerRnd d) * (SHIP_COUNT + 2) - i - 1
          \<and> (\<forall>n < length es. pc (run (take n es) s1) = None
                \<longrightarrow> 0 < activeShips (run (take n es) s1)) \<longrightarrow>
            (\<forall>n < length es. before_due due (run (take n es) s1)
                \<and> p \<in> dom (activeCells (run (take n es) s1)))
          \<and> unat (tick (run es s1)) = due \<and> pc (run es s1) = Some 0
          \<and> p \<notin> dom (activeCells (run es s1)))"
proof -
  have sch: "scheduled_once (activeCells s) (cellsTimers s)"
    using assms(1) by (rule reachable_scheduled_once)
  have len: "i < length (ships s)"
    using reachable_ships_ok [OF assms(1)] assms(3) by simp
  note sched = schedule_outstanding [OF sch assms(2,3) len assms(4,5,6,7,9)]
  have o: "outstanding p (unat (tick s)) due s1"
    using sched(1) by (simp add: p_def due_def s1_def)
  have d30: "due \<le> unat (tick s) + 30"
    using assms(8) by (simp add: due_def)
  have d64: "due < 2 ^ 64"
    using assms(9) by (simp add: due_def)
  have first: "cellsTimers s1 = (cellsTimers s)[due mod 30 := cellsTimers s ! (due mod 30) @ [p]]"
    using sched(2) by (simp add: p_def due_def s1_def)
  have second: "(before_due due (run ds s1) \<longrightarrow> p \<in> dom (activeCells (run ds s1)))
      \<and> (\<not> before_due due (run ds s1) \<longrightarrow>
            unat (tick (run ds s1)) = due \<and> pc (run ds s1) = Some 0
          \<and> p \<notin> dom (activeCells (run ds s1)))"
    if w: "\<forall>n < length ds. before_due due (run (take n ds) s1)"
  proof -
    from outstanding_run [OF o d30 d64 w]
    show ?thesis
    proof
      assume a: "outstanding p (unat (tick s)) due (run ds s1)"
      then have "before_due due (run ds s1)"
        by (simp add: outstanding_def)
      with outstanding_present [OF a] show ?thesis
        by simp
    next
      assume a: "unat (tick (run ds s1)) = due \<and> pc (run ds s1) = Some 0
          \<and> p \<notin> dom (activeCells (run ds s1))"
      then have "\<not> before_due due (run ds s1)"
        by (simp add: before_due_def)
      with a show ?thesis
        by simp
    qed
  qed
  have third: "(\<forall>n < length es. before_due due (run (take n es) s1)
        \<and> p \<in> dom (activeCells (run (take n es) s1)))
      \<and> unat (tick (run es s1)) = due \<and> pc (run es s1) = Some 0
      \<and> p \<notin> dom (activeCells (run es s1))"
    if l: "length es = nat (cellTimerRnd d) * (SHIP_COUNT + 2) - i - 1"
      and alive: "\<forall>n < length es. pc (run (take n es) s1) = None
          \<longrightarrow> 0 < activeShips (run (take n es) s1)"
  proof -
    have pc1: "pc s1 = Some (Suc i)" and tk1: "tick s1 = tick s"
      unfolding s1_def using assms(2,3) by (rule sim_step_ship_pc)+
    have ok: "\<forall>j. pc s1 = Some j \<longrightarrow> j \<le> SHIP_COUNT"
      using pc1 assms(3) by simp
    define A where "A = unat (tick s) * (SHIP_COUNT + 2)"
    define B where "B = nat (cellTimerRnd d) * (SHIP_COUNT + 2)"
    have "1 \<le> nat (cellTimerRnd d)"
      using assms(7) by simp
    then have "1 * (SHIP_COUNT + 2) \<le> B"
      unfolding B_def by (rule mult_le_mono1)
    then have big: "i + 2 \<le> B"
      using assms(3) by simp
    have dd: "due * (SHIP_COUNT + 2) = A + B"
      unfolding due_def A_def B_def by (rule add_mult_distrib)
    have lp: "loop_position s1 = A + Suc (Suc i)"
      by (simp add: loop_position_def pc1 tk1 A_def)
    have le: "length es = B - i - 1"
      using l by (simp only: B_def)
    have pos: "loop_position s1 + length es = due * (SHIP_COUNT + 2) + 1"
      unfolding dd lp le using big by linarith
    from outstanding_expires [OF o ok d30 d64 pos alive] show ?thesis
      by simp
  qed
  from first second third show ?thesis
    by blast
qed

text \<open>The state after the cells of the first tick are processed, when every ship is drawn
  RESTLESS with timer 1 at position 0.\<close>

lemma first_step:
  "sim_step d (init_sim (replicate SHIP_COUNT \<lparr>initType = 2, initTimer = 1, initPosition = 0\<rparr>))
     = \<lparr>activeCells = Map.empty, cellsTimers = (replicate 30 [])[1 := []],
        ships = replicate SHIP_COUNT 22, activeShips = int SHIP_COUNT, tick = 1, pc = Some 0\<rparr>"
proof -
  have "init_ship \<lparr>initType = 2, initTimer = 1, initPosition = 0\<rparr> = 22"
    by (simp add: init_ship_def SHIFT_defs FISHING_def)
  then show ?thesis
    by (simp add: sim_step_def init_sim_def drain_expired_def erase_cells_def SHIP_COUNT_def)
qed

theorem expiry_at_due_tick_witness:
  "reachable (sim_step \<lparr>shipTimerRng = 1, catchRng = 1, fishRng = 0, cellTimerRnd = 15,
        shipOffsetRngX = 0, shipOffsetRngY = 0\<rparr> (init_sim (replicate SHIP_COUNT \<lparr>initType = 2, initTimer = 1, initPosition = 0\<rparr>)))
   \<and> pc (sim_step \<lparr>shipTimerRng = 1, catchRng = 1, fishRng = 0, cellTimerRnd = 15,
        shipOffsetRngX = 0, shipOffsetRngY = 0\<rparr> (init_sim (replicate SHIP_COUNT \<lparr>initType = 2, initTimer = 1, initPosition = 0\<rparr>))) = Some 0
   \<and> tick (sim_step \<lparr>shipTimerRng = 1, catchRng = 1, fishRng = 0, cellTimerRnd = 15,
        shipOffsetRngX = 0, shipOffsetRngY = 0\<rparr> (init_sim (replicate SHIP_COUNT \<lparr>initType = 2, initTimer = 1, initPosition = 0\<rparr>))) = 1
   \<and> activeCells (sim_step \<lparr>shipTimerRng = 1, catchRng = 1, fishRng = 0, cellTimerRnd = 15,
        shipOffsetRngX = 0, shipOffsetRngY = 0\<rparr> (init_sim (replicate SHIP_COUNT \<lparr>initType = 2, initTimer = 1, initPosition = 0\<rparr>))) 0 = None
   \<and> cellsTimers (sim_step \<lparr>shipTimerRng = 1, catchRng = 1, fishRng = 0, cellTimerRnd = 15,
        shipOffsetRngX = 0, shipOffsetRngY = 0\<rparr> (sim_step \<lparr>shipTimerRng = 1, catchRng = 1, fishRng = 0, cellTimerRnd = 15,
        shipOffsetRngX = 0, shipOffsetRngY = 0\<rparr> (init_sim (replicate SHIP_COUNT \<lparr>initType = 2, initTimer = 1, initPosition = 0\<rparr>)))) ! 16 = [0]
   \<and> 0 \<in> dom (activeCells (sim_step \<lparr>shipTimerRng = 1, catchRng = 1, fishRng = 0, cellTimerRnd = 15,
        shipOffsetRngX = 0, shipOffsetRngY = 0\<rparr> (sim_step \<lparr>shipTimerRng = 1, catchRng = 1, fishRng = 0, cellTimerRnd = 15,
        shipOffsetRngX = 0, shipOffsetRngY = 0\<rparr> (init_sim (replicate SHIP_COUNT \<lparr>initType = 2, initTimer = 1, initPosition = 0\<rparr>)))))
   \<and> 0 \<in> dom (activeCells (run (replicate (15 * (SHIP_COUNT + 2) - 2) \<lparr>shipTimerRng = 1, catchRng = 1, fishRng = 0, cellTimerRnd = 15,
        shipOffsetRngX = 0, shipOffsetRngY = 0\<rparr>)
        (sim_step \<lparr>shipTimerRng = 1, catchRng = 1, fishRng = 0, cellTimerRnd = 15,
        shipOffsetRngX = 0, shipOffsetRngY = 0\<rparr> (sim_step \<lparr>shipTimerRng = 1, catchRng = 1, fishRng = 0, cellTimerRnd = 15,
        shipOffsetRngX = 0, shipOffsetRngY = 0\<rparr> (init_sim (replicate SHIP_COUNT \<lparr>initType = 2, initTimer = 1, initPosition = 0\<rparr>))))))
   \<and> unat (tick (run (replicate (15 * (SHIP_COUNT + 2) - 1) \<lparr>shipTimerRng = 1, catchRng = 1, fishRng = 0, cellTimerRnd = 15,
        shipOffsetRngX = 0, shipOffsetRngY = 0\<rparr>)
        (sim_step \<lparr>shipTimerRng = 1, catchRng = 1, fishRng = 0, cellTimerRnd = 15,
        shipOffsetRngX = 0, shipOffsetRngY = 0\<rparr> (sim_step \<lparr>shipTimerRng = 1, catchRng = 1, fishRng = 0, cellTimerRnd = 15,
        shipOffsetRngX = 0, shipOffsetRngY = 0\<rparr> (init_sim (replicate SHIP_COUNT \<lparr>initType = 2, initTimer = 1, initPosition = 0\<rparr>)))))) = 16
   \<and> pc (run (replicate (15 * (SHIP_COUNT + 2) - 1) \<lparr>shipTimerRng = 1, catchRng = 1, fishRng = 0, cellTimerRnd = 15,
        shipOffsetRngX = 0, shipOffsetRngY = 0\<rparr>)
        (sim_step \<lparr>shipTimerRng = 1, catchRng = 1, fishRng = 0, cellTimerRnd = 15,
        shipOffsetRngX = 0, shipOffsetRngY = 0\<rparr> (sim_step \<lparr>shipTimerRng = 1, catchRng = 1, fishRng = 0, cellTimerRnd = 15,
        shipOffsetRngX = 0, shipOffsetRngY = 0\<rparr> (init_sim (replicate SHIP_COUNT \<lparr>initType = 2, initTimer = 1, initPosition = 0\<rparr>))))) = Some 0
   \<and> 0 \<notin> dom (activeCells (run (replicate (15 * (SHIP_COUNT + 2) - 1) \<lparr>shipTimerRng = 1, catchRng = 1, fishRng = 0, cellTimerRnd = 15,
        shipOffsetRngX = 0, shipOffsetRngY = 0\<rparr>)
        (sim_step \<lparr>shipTimerRng = 1, catchRng = 1, fishRng = 0, cellTimerRnd = 15,
        shipOffsetRngX = 0, shipOffsetRngY = 0\<rparr> (sim_step \<lparr>shipTimerRng = 1, catchRng = 1, fishRng = 0, cellTimerRnd = 15,
        shipOffsetRngX = 0, shipOffsetRngY = 0\<rparr> (init_sim (replicate SHIP_COUNT \<lparr>initType = 2, initTimer = 1, initPosition = 0\<rparr>))))))"
proof -
  let ?e = "\<lparr>shipTimerRng = 1, catchRng = 1, fishRng = 0, cellTimerRnd = 15,
        shipOffsetRngX = 0, shipOffsetRngY = 0\<rparr>"
  define N where "N = 15 * (SHIP_COUNT + 2) - 1"
  define s0 where "s0 = init_sim (replicate SHIP_COUNT \<lparr>initType = 2, initTimer = 1, initPosition = 0\<rparr>)"
  define s where "s = sim_step ?e s0"
  define s1 where "s1 = sim_step ?e s"
  have s: "s = \<lparr>activeCells = Map.empty, cellsTimers = (replicate 30 [])[1 := []],
        ships = replicate SHIP_COUNT 22, activeShips = int SHIP_COUNT, tick = 1, pc = Some 0\<rparr>"
    unfolding s_def s0_def by (rule first_step)
  have n: "0 < SHIP_COUNT"
    by (simp add: SHIP_COUNT_def)
  have v: "valid_draw ?e"
    by (simp add: valid_draw_def)
  have r0: "reachable s0"
    unfolding s0_def by (rule reachable.init) (simp_all add: example_draws_valid)
  have r: "reachable s"
    unfolding s_def using r0 v by (rule reachable.step)
  have h2: "pc s = Some 0"
    by (simp add: s)
  have h4: "state_of (ships s ! 0) = FISHING"
    using n by (simp add: s getbits_def SHIFT_defs MASK_2BIT_def FISHING_def)
  have h5: "timer_of (ships s ! 0) = 1"
    using n by (simp add: s getbits_def SHIFT_defs MASK_2BIT_def)
  have p: "position_of (ships s ! 0) = 0"
    using n by (simp add: s getbits_def SHIFT_defs MASK_34BIT_def)
  have h6: "activeCells s (position_of (ships s ! 0)) = None"
    unfolding p by (simp add: s)
  have h7: "15 \<le> cellTimerRnd ?e" and h8: "cellTimerRnd ?e \<le> 30"
    by simp_all
  have h9: "unat (tick s) + nat (cellTimerRnd ?e) < 2 ^ 64"
    by (simp add: s)
  have due: "unat (tick s) + nat (cellTimerRnd ?e) = 16"
    by (simp add: s)
  have c0: "calm s0"
    unfolding s0_def by (rule calm_init) (simp_all add: example_draws_valid)
  have c1: "calm s1"
    unfolding s1_def s_def using c0 by (intro sim_step_calm) simp_all
  have l: "length (replicate N ?e) = nat (cellTimerRnd ?e) * (SHIP_COUNT + 2) - 0 - 1"
    by (simp add: N_def)
  have alive: "\<forall>n < length (replicate N ?e). pc (run (take n (replicate N ?e)) s1) = None
      \<longrightarrow> 0 < activeShips (run (take n (replicate N ?e)) s1)"
  proof (intro allI impI)
    fix n
    have "calm (run (take n (replicate N ?e)) s1)"
      using c1 by (rule run_calm) (auto dest: in_set_takeD)
    then show "0 < activeShips (run (take n (replicate N ?e)) s1)"
      by (rule calm_alive)
  qed
  note t = expiry_at_due_tick [OF r h2 n h4 h5 h6 h7 h8 h9, where ds = "[]" and es = "replicate N ?e",
      unfolded due p, folded s1_def]
  from t have slot: "cellsTimers s1 = (cellsTimers s)[16 mod 30 := cellsTimers s ! (16 mod 30) @ [0]]"
    by blast
  from t l alive have run: "(\<forall>n < length (replicate N ?e).
        before_due 16 (run (take n (replicate N ?e)) s1)
        \<and> 0 \<in> dom (activeCells (run (take n (replicate N ?e)) s1)))
      \<and> unat (tick (run (replicate N ?e) s1)) = 16 \<and> pc (run (replicate N ?e) s1) = Some 0
      \<and> 0 \<notin> dom (activeCells (run (replicate N ?e) s1))"
    by blast
  have N: "0 < N" "N - 1 < N" "N - 1 = 15 * (SHIP_COUNT + 2) - 2"
    by (simp_all add: N_def SHIP_COUNT_def)
  have pre: "0 \<in> dom (activeCells (run (take n (replicate N ?e)) s1))" if "n < N" for n
    using run [THEN conjunct1, rule_format, of n] that by simp
  from pre [OF N(1)] have a: "0 \<in> dom (activeCells s1)"
    by (simp add: run_def)
  from pre [OF N(2)] have b: "0 \<in> dom (activeCells (run (replicate (15 * (SHIP_COUNT + 2) - 2) ?e) s1))"
    using N(3) by (simp add: min_def)
  have c: "cellsTimers s1 ! 16 = [0]"
    unfolding slot by (simp add: s)
  show ?thesis
    using r h2 a b c run
    unfolding N_def [symmetric] s1_def [symmetric] s_def [symmetric] s0_def [symmetric]
    by (simp add: s)
qed

end
